theory Spec2Isabelle
  imports Main "HOL-Library.Sublist"
begin

section \<open>uqfindexec: the per-file pipeline engine\<close>

text \<open>
  A shallow embedding of the coordinator of \<open>uqfindexec\<close> (placeholder substitution,
  redirection validation, spawning, reaping, classification, the scheduler loop of
  \<open>run_pipeline\<close> and the exit decision of \<open>main\<close>). C strings are \<open>char\<close> lists
  without the terminating NUL. The counters are C \<open>int\<close>s that never exceed the number
  of files, itself an \<open>int\<close>, so they are modelled as unbounded integers.
\<close>

subsection \<open>Constants of the source\<close>

definition PROCESS_ERROR :: int where "PROCESS_ERROR = 16"
definition CHILD_PROCESS_ERROR :: nat where "CHILD_PROCESS_ERROR = 99"
definition SIGINT_REC :: int where "SIGINT_REC = 17"

definition SUCCESS :: nat where "SUCCESS = 0"
definition FAIL :: nat where "FAIL = 1"
definition SIGNAL :: nat where "SIGNAL = 2"
definition NOTEXEC :: nat where "NOTEXEC = 3"
definition TOTAL_STATS :: nat where "TOTAL_STATS = 4"

lemmas Values_defs = SUCCESS_def FAIL_def SIGNAL_def NOTEXEC_def TOTAL_STATS_def

definition dquote :: string where "dquote = [CHR 0x22]"
definition newline :: string where "newline = [CHR 0x0A]"

definition execError :: "string \<Rightarrow> string \<Rightarrow> string" where
  "execError prog fileName =
     ''uqfindexec: unable to execute '' @ dquote @ prog @ dquote @
     '' when processing '' @ dquote @ fileName @ dquote @ newline"

definition readError :: "string \<Rightarrow> string \<Rightarrow> string" where
  "readError path fileName =
     ''uqfindexec: unable to open '' @ dquote @ path @ dquote @
     '' for reading when processing '' @ dquote @ fileName @ dquote @ newline"

definition writeError :: "string \<Rightarrow> string \<Rightarrow> string" where
  "writeError path fileName =
     ''uqfindexec: unable to write '' @ dquote @ path @ dquote @
     '' while processing '' @ dquote @ fileName @ dquote @ newline"

subsection \<open>Placeholder substitution\<close>

text \<open>
  \<open>strstr haystack needle\<close> of the C library: the offset of the first occurrence of
  \<open>needle\<close> in \<open>haystack\<close> (the source gets a pointer to it), \<open>None\<close> for \<open>NULL\<close>.
\<close>

fun strstr :: "string \<Rightarrow> string \<Rightarrow> nat option" where
  "strstr [] needle = (if needle = [] then Some 0 else None)"
| "strstr (c # cs) needle =
     (if prefix needle (c # cs) then Some 0 else map_option Suc (strstr cs needle))"

lemma strstr_bound: "strstr s needle = Some i \<Longrightarrow> i + length needle \<le> length s"
proof (induction s arbitrary: i)
  case Nil
  then show ?case by (simp split: if_splits)
next
  case (Cons c cs)
  then show ?case
    by (auto split: if_splits dest: prefix_length_le)
qed

text \<open>The \<open>while\<close> loop of \<open>count_placeholders\<close>: \<open>checkStr\<close> advances past each hit.\<close>

function count_placeholders_loop :: "string \<Rightarrow> nat \<Rightarrow> nat" where
  "count_placeholders_loop checkStr count =
     (case strstr checkStr ''{}'' of
        None \<Rightarrow> count
      | Some i \<Rightarrow> count_placeholders_loop (drop (i + 2) checkStr) (count + 1))"
  by pat_completeness auto
termination
  by (relation "measure (\<lambda>(s, c). length s)") (auto dest: strstr_bound)

definition count_placeholders :: "string \<Rightarrow> nat" where
  "count_placeholders checkStr = count_placeholders_loop checkStr 0"

text \<open>
  The \<open>while (1)\<close> loop of \<open>handle_placeholders\<close>: \<open>tempPtr\<close> is the unread rest of the
  template, \<open>newStr\<close> the text written so far.
\<close>

function handle_placeholders_loop :: "string \<Rightarrow> string \<Rightarrow> string \<Rightarrow> string" where
  "handle_placeholders_loop tempPtr fill newStr =
     (case strstr tempPtr ''{}'' of
        Some lenToPlaceHolder \<Rightarrow>
          handle_placeholders_loop (drop (lenToPlaceHolder + 2) tempPtr) fill
            (newStr @ take lenToPlaceHolder tempPtr @ fill)
      | None \<Rightarrow> newStr @ tempPtr)"
  by pat_completeness auto
termination
  by (relation "measure (\<lambda>(s, f, a). length s)") (auto dest: strstr_bound)

text \<open>The number of bytes \<open>handle_placeholders\<close> allocates for the new string.\<close>

definition handle_placeholders_size :: "string \<Rightarrow> string \<Rightarrow> nat" where
  "handle_placeholders_size checkStr fill =
     (let count = count_placeholders checkStr
      in length checkStr - count * 2 + count * length fill + 1)"

definition handle_placeholders :: "string \<Rightarrow> string \<Rightarrow> string" where
  "handle_placeholders checkStr fill =
     (let count = count_placeholders checkStr
      in if count = 0 then checkStr else handle_placeholders_loop checkStr fill [])"

text \<open>
  The substitution as the specification words it: every non-overlapping occurrence of
  the marker, scanning left to right, is replaced by the fill string.
\<close>

fun occurrences_spec :: "string \<Rightarrow> nat" where
  "occurrences_spec (a # b # cs) =
     (if a = CHR ''{'' \<and> b = CHR ''}'' then Suc (occurrences_spec cs)
      else occurrences_spec (b # cs))"
| "occurrences_spec [a] = 0"
| "occurrences_spec [] = 0"

fun substitute_spec :: "string \<Rightarrow> string \<Rightarrow> string" where
  "substitute_spec (a # b # cs) fill =
     (if a = CHR ''{'' \<and> b = CHR ''}'' then fill @ substitute_spec cs fill
      else a # substitute_spec (b # cs) fill)"
| "substitute_spec [a] fill = [a]"
| "substitute_spec [] fill = []"

subsection \<open>Termination statuses and classification\<close>

text \<open>
  The status word that \<open>waitpid\<close> stores, seen through the macros the source applies to
  it: a normal exit with its code, a death by signal, or neither. \<open>WEXITSTATUS\<close> is only
  meaningful (and only used) on a status for which \<open>WIFEXITED\<close> holds.
\<close>

datatype wait_status = Exited nat | Signaled nat | Stopped nat

fun WIFEXITED :: "wait_status \<Rightarrow> bool" where
  "WIFEXITED (Exited c) = True"
| "WIFEXITED _ = False"

fun WEXITSTATUS :: "wait_status \<Rightarrow> nat" where
  "WEXITSTATUS (Exited c) = c"
| "WEXITSTATUS _ = 0"

fun WIFSIGNALED :: "wait_status \<Rightarrow> bool" where
  "WIFSIGNALED (Signaled g) = True"
| "WIFSIGNALED _ = False"

text \<open>\<open>stats[j]++\<close> on the statistics array.\<close>

definition incr :: "nat \<Rightarrow> int list \<Rightarrow> int list" where
  "incr j counters = counters[j := counters ! j + 1]"

text \<open>The \<open>for\<close> loop of \<open>count_stats\<close> over the flags \<open>(fail, signal, notexec)\<close>.\<close>

fun count_stats_loop :: "wait_status list \<Rightarrow> bool \<times> bool \<times> bool \<Rightarrow> bool \<times> bool \<times> bool" where
  "count_stats_loop [] flags = flags"
| "count_stats_loop (status # statuses) (fail, signal, notexec) =
     count_stats_loop statuses
       (if WIFEXITED status then
          (if WEXITSTATUS status = CHILD_PROCESS_ERROR then (fail, signal, True)
           else if WEXITSTATUS status \<noteq> 0 then (True, signal, notexec)
           else (fail, signal, notexec))
        else if WIFSIGNALED status then (fail, True, notexec)
        else (fail, signal, notexec))"

definition count_stats :: "int list \<Rightarrow> wait_status list \<Rightarrow> nat \<Rightarrow> int list" where
  "count_stats counters statuses statusCount =
     (case count_stats_loop (take statusCount statuses) (False, False, False) of
        (fail, signal, notexec) \<Rightarrow>
          incr TOTAL_STATS
            (if notexec then incr NOTEXEC counters
             else if signal then incr SIGNAL counters
             else if fail then incr FAIL counters
             else incr SUCCESS counters))"

text \<open>
  The classification as the specification words it: the index of the one category
  counter a list of statuses belongs to, by the fixed priority.
\<close>

definition could_not_execute :: "wait_status \<Rightarrow> bool" where
  "could_not_execute st \<longleftrightarrow> st = Exited CHILD_PROCESS_ERROR"

definition signal_terminated :: "wait_status \<Rightarrow> bool" where
  "signal_terminated st \<longleftrightarrow> (\<exists>g. st = Signaled g)"

definition exited_nonzero :: "wait_status \<Rightarrow> bool" where
  "exited_nonzero st \<longleftrightarrow> (\<exists>c. st = Exited c \<and> c \<noteq> 0 \<and> c \<noteq> CHILD_PROCESS_ERROR)"

definition outcome_spec :: "wait_status list \<Rightarrow> nat" where
  "outcome_spec statuses =
     (if \<exists>st \<in> set statuses. could_not_execute st then NOTEXEC
      else if \<exists>st \<in> set statuses. signal_terminated st then SIGNAL
      else if \<exists>st \<in> set statuses. exited_nonzero st then FAIL
      else SUCCESS)"

subsection \<open>Data of a run\<close>

record Settings =
  dir :: "string option"
  dirDefault :: bool
  parallel :: bool
  statistics :: bool
  allfiles :: bool
  cmd :: "string option"
  processFailed :: bool
  sigInt :: bool

text \<open>
  Modelled from the spec: the struct \<open>CommandPipeline\<close> is declared in the course
  library header \<open>csse2310a3.h\<close>, which is not part of the repository. It is an ordered
  sequence of stages, each a list of argument tokens, with optional templates for the
  first stage's standard input and the last stage's standard output; \<open>numCmds\<close> is the
  number of stages.
\<close>

record CommandPipeline =
  cmdArray :: "string list list"
  stdinFileName :: "string option"
  stdoutFileName :: "string option"

definition numCmds :: "CommandPipeline \<Rightarrow> nat" where
  "numCmds pipeline = length (cmdArray pipeline)"

subsection \<open>The operating system as seen by the coordinator\<close>

text \<open>
  A child is identified by the file and the stage it was forked for: \<open>fork\<close> is assumed
  to succeed, and the numeric value of a process id plays no role in the coordinator.
\<close>

datatype pid = Pid string nat

datatype open_mode = O_RDONLY | O_WRONLY_CREAT_TRUNC

datatype exec_result = ExecFailed | Terminated wait_status

text \<open>
  What the coordinator cannot decide is a parameter: the result of \<open>open\<close> on a path (a
  descriptor, or a negative value), whether \<open>execvp\<close> starts a stage's program and, when
  it does, how that process terminates, and whether SIGINT arrives while the coordinator
  validates the redirections of a file or while it runs a file's pipeline.
\<close>

record os =
  os_open :: "string \<Rightarrow> open_mode \<Rightarrow> int"
  os_execvp :: "pid \<Rightarrow> string list \<Rightarrow> exec_result"
  sigint_in_validate :: "string \<Rightarrow> bool"
  sigint_in_process :: "string \<Rightarrow> bool"

text \<open>The system calls and diagnostics of a process, in the order it makes them.\<close>

datatype event =
    Open string open_mode int
  | Close int
  | Dup2 int int
  | Stderr string
  | Fork pid "string list"
  | Waitpid pid

definition STDIN_FILENO :: int where "STDIN_FILENO = 0"
definition STDOUT_FILENO :: int where "STDOUT_FILENO = 1"

subsection \<open>Redirection validation\<close>

definition try_open_file :: "os \<Rightarrow> string \<Rightarrow> string \<Rightarrow> bool \<Rightarrow> int \<times> event list" where
  "try_open_file env openFileName fileName readOrWrite =
     (let newReadFileName = handle_placeholders openFileName fileName
      in if readOrWrite then
           (let file = os_open env newReadFileName O_RDONLY
            in if file < 0 then
                 (- 1, [Open newReadFileName O_RDONLY file,
                        Stderr (readError newReadFileName fileName)])
               else (file, [Open newReadFileName O_RDONLY file]))
         else
           (let file = os_open env newReadFileName O_WRONLY_CREAT_TRUNC
            in if file < 0 then
                 (- 1, [Open newReadFileName O_WRONLY_CREAT_TRUNC file,
                        Stderr (writeError newReadFileName fileName)])
               else (file, [Open newReadFileName O_WRONLY_CREAT_TRUNC file])))"

definition validate_files :: "os \<Rightarrow> string option \<Rightarrow> string option \<Rightarrow> string \<Rightarrow> bool \<times> event list" where
  "validate_files env inputFile outputFile fileName =
     (case (case inputFile of
              None \<Rightarrow> (True, [])
            | Some path \<Rightarrow>
                (case try_open_file env path fileName True of
                   (testopen, ev) \<Rightarrow>
                     if testopen = - 1 then (False, ev) else (True, ev @ [Close testopen]))) of
        (inputOk, ev1) \<Rightarrow>
          if \<not> inputOk then (False, ev1)
          else (case outputFile of
                  None \<Rightarrow> (True, ev1)
                | Some path \<Rightarrow>
                    (case try_open_file env path fileName False of
                       (testopen, ev) \<Rightarrow>
                         if testopen = - 1 then (False, ev1 @ ev)
                         else (True, ev1 @ ev @ [Close testopen]))))"

text \<open>
  The validator as the specification words it: each specified path is opened in the
  mode of its use and closed at once; the first failure stops the check with the
  diagnostic for that path and the file being processed.
\<close>

definition diagnostic_spec :: "open_mode \<Rightarrow> string \<Rightarrow> string \<Rightarrow> string" where
  "diagnostic_spec mode path fileName =
     (case mode of O_RDONLY \<Rightarrow> readError path fileName
      | O_WRONLY_CREAT_TRUNC \<Rightarrow> writeError path fileName)"

fun validate_spec :: "os \<Rightarrow> (string \<times> open_mode) list \<Rightarrow> string \<Rightarrow> bool \<times> event list" where
  "validate_spec env [] fileName = (True, [])"
| "validate_spec env ((path, mode) # others) fileName =
     (let fd = os_open env path mode
      in if fd < 0 then (False, [Open path mode fd, Stderr (diagnostic_spec mode path fileName)])
         else (case validate_spec env others fileName of
                 (ok, ev) \<Rightarrow> (ok, Open path mode fd # Close fd # ev)))"

definition specified_paths :: "string option \<Rightarrow> string option \<Rightarrow> string \<Rightarrow> (string \<times> open_mode) list" where
  "specified_paths inputFile outputFile fileName =
     (case inputFile of None \<Rightarrow> []
      | Some path \<Rightarrow> [(handle_placeholders path fileName, O_RDONLY)]) @
     (case outputFile of None \<Rightarrow> []
      | Some path \<Rightarrow> [(handle_placeholders path fileName, O_WRONLY_CREAT_TRUNC)])"

subsection \<open>Spawning the stages of one file\<close>

definition cmd_copy :: "string list \<Rightarrow> string \<Rightarrow> string list" where
  "cmd_copy oldCmd fileName = map (\<lambda>arg. handle_placeholders arg fileName) oldCmd"

text \<open>What a standard stream of a child refers to when it calls \<open>execvp\<close>.\<close>

datatype stream = Inherited | RedirFile string | RedirPipe

record child =
  child_stdin :: stream
  child_stdout :: stream
  child_trace :: "event list"
  child_status :: wait_status

text \<open>
  The child opens the file, duplicates the descriptor onto the standard stream and
  closes the descriptor, whatever \<open>try_open_file\<close> returned: \<open>dup2\<close> on the \<open>-1\<close> of a
  failed \<open>try_open_file\<close> fails and leaves the stream as it was inherited.
\<close>

definition redirect_from_file :: "os \<Rightarrow> string \<Rightarrow> string \<Rightarrow> stream \<times> event list" where
  "redirect_from_file env readFileName fileName =
     (case try_open_file env readFileName fileName True of
        (inputFile, ev) \<Rightarrow>
          (if inputFile = - 1 then Inherited
           else RedirFile (handle_placeholders readFileName fileName),
           ev @ [Dup2 inputFile STDIN_FILENO, Close inputFile]))"

definition redirect_to_file :: "os \<Rightarrow> string \<Rightarrow> string \<Rightarrow> stream \<times> event list" where
  "redirect_to_file env writeFileName fileName =
     (case try_open_file env writeFileName fileName False of
        (outputFile, ev) \<Rightarrow>
          (if outputFile = - 1 then Inherited
           else RedirFile (handle_placeholders writeFileName fileName),
           ev @ [Dup2 outputFile STDOUT_FILENO, Close outputFile]))"

text \<open>
  The child branch of \<open>spawn_child\<close>: the redirections, then \<open>execvp\<close>; when that
  returns, the diagnostic and \<open>_exit(CHILD_PROCESS_ERROR)\<close>. The diagnostic prints
  \<open>cmd[0]\<close> with \<open>%s\<close>, which for the null pointer of an empty argument list is the
  text \<open>(null)\<close>.
\<close>

definition program_name :: "string list \<Rightarrow> string" where
  "program_name argv = (case argv of [] \<Rightarrow> ''(null)'' | prog # _ \<Rightarrow> prog)"

definition child_process :: "os \<Rightarrow> CommandPipeline \<Rightarrow> string list \<Rightarrow> nat \<Rightarrow> string \<Rightarrow> child" where
  "child_process env pipeline argv cmdIdx fileName =
     (case (if stdinFileName pipeline \<noteq> None \<and> cmdIdx = 0 then
              redirect_from_file env (the (stdinFileName pipeline)) fileName
            else if cmdIdx > 0 \<and> numCmds pipeline > 1 then (RedirPipe, [])
            else (Inherited, [])) of
        (input, ev1) \<Rightarrow>
          (case (if stdoutFileName pipeline \<noteq> None \<and> int cmdIdx = int (numCmds pipeline) - 1 then
                   redirect_to_file env (the (stdoutFileName pipeline)) fileName
                 else if int cmdIdx < int (numCmds pipeline) - 1 \<and> numCmds pipeline > 1 then
                   (RedirPipe, [])
                 else (Inherited, [])) of
             (output, ev2) \<Rightarrow>
               (case os_execvp env (Pid fileName cmdIdx) argv of
                  Terminated st \<Rightarrow>
                    \<lparr>child_stdin = input, child_stdout = output,
                     child_trace = ev1 @ ev2, child_status = st\<rparr>
                | ExecFailed \<Rightarrow>
                    \<lparr>child_stdin = input, child_stdout = output,
                     child_trace = ev1 @ ev2 @ [Stderr (execError (program_name argv) fileName)],
                     child_status = Exited CHILD_PROCESS_ERROR\<rparr>)))"

text \<open>
  The parent branch of \<open>spawn_child\<close>: the identity of the child. The descriptors of
  the pipe between two stages are not modelled.
\<close>

definition spawn_child :: "CommandPipeline \<Rightarrow> string list \<Rightarrow> nat \<Rightarrow> string \<Rightarrow> pid \<times> event list" where
  "spawn_child pipeline argv cmdIdx fileName =
     (Pid fileName cmdIdx, [Fork (Pid fileName cmdIdx) argv])"

definition exec_cmd :: "CommandPipeline \<Rightarrow> string \<Rightarrow> pid list \<times> event list" where
  "exec_cmd pipeline fileName =
     (let spawned = map (\<lambda>i. spawn_child pipeline (cmd_copy (cmdArray pipeline ! i) fileName) i fileName)
                      [0..<numCmds pipeline]
      in (map fst spawned, concat (map snd spawned)))"

subsection \<open>Reaping\<close>

text \<open>
  \<open>waitpid\<close> on a child stores the status with which that child terminated.
\<close>

fun waitpid :: "os \<Rightarrow> CommandPipeline \<Rightarrow> pid \<Rightarrow> wait_status" where
  "waitpid env pipeline (Pid fileName cmdIdx) =
     child_status (child_process env pipeline
       (cmd_copy (cmdArray pipeline ! cmdIdx) fileName) cmdIdx fileName)"

definition reap_children :: "os \<Rightarrow> CommandPipeline \<Rightarrow> pid list \<Rightarrow> int list \<Rightarrow> nat \<Rightarrow> int list \<times> event list" where
  "reap_children env pipeline children counters n =
     (count_stats counters (map (waitpid env pipeline) (take n children)) n,
      map Waitpid (take n children))"

subsection \<open>The scheduler\<close>

record run_state =
  stats :: "int list"
  config :: Settings
  pids :: "pid list option list"
  sigintReceived :: bool
  trace :: "event list"

definition handle_sigint :: "run_state \<Rightarrow> run_state" where
  "handle_sigint s = s\<lparr>sigintReceived := True\<rparr>"

text \<open>A point at which the signal handler runs if the signal has arrived.\<close>

definition deliver :: "bool \<Rightarrow> run_state \<Rightarrow> run_state" where
  "deliver arrived s = (if arrived then handle_sigint s else s)"

definition sequential_process :: "os \<Rightarrow> CommandPipeline \<Rightarrow> string \<Rightarrow> run_state \<Rightarrow> run_state" where
  "sequential_process env pipeline fileName s =
     (case exec_cmd pipeline fileName of
        (children, ev1) \<Rightarrow>
          (case reap_children env pipeline children (stats s) (numCmds pipeline) of
             (counters, ev2) \<Rightarrow>
               s\<lparr>stats := counters, pids := (pids s)[0 := Some children],
                 trace := trace s @ ev1 @ ev2\<rparr>))"

definition parallel_process :: "CommandPipeline \<Rightarrow> string \<Rightarrow> nat \<Rightarrow> run_state \<Rightarrow> run_state" where
  "parallel_process pipeline fileName fileNo s =
     (case exec_cmd pipeline fileName of
        (children, ev) \<Rightarrow>
          s\<lparr>pids := (pids s)[fileNo := Some children], trace := trace s @ ev\<rparr>)"

text \<open>
  The first loop of \<open>run_pipeline\<close>, over the files from index \<open>i\<close> on. The test
  \<open>i < fileList.count - 1\<close> holds exactly when files remain after the current one; the
  \<open>break\<close> returns the state as it is.
\<close>

fun run_pipeline_exec :: "os \<Rightarrow> CommandPipeline \<Rightarrow> string list \<Rightarrow> nat \<Rightarrow> run_state \<Rightarrow> run_state" where
  "run_pipeline_exec env pipeline [] i s = s"
| "run_pipeline_exec env pipeline (fileName # rest) i s =
     (case validate_files env (stdinFileName pipeline) (stdoutFileName pipeline) fileName of
        (valid, ev) \<Rightarrow>
          (let s1 = deliver (sigint_in_validate env fileName) (s\<lparr>trace := trace s @ ev\<rparr>)
           in if \<not> valid \<and> \<not> sigintReceived s1 then
                run_pipeline_exec env pipeline rest (Suc i)
                  (s1\<lparr>stats := incr TOTAL_STATS (incr NOTEXEC (stats s1))\<rparr>)
              else if \<not> parallel (config s1) \<and> \<not> sigintReceived s1 then
                (let s2 = deliver (sigint_in_process env fileName)
                            (sequential_process env pipeline fileName s1)
                 in if sigintReceived s2 \<and> rest \<noteq> [] then
                      s2\<lparr>config := (config s2)\<lparr>sigInt := True\<rparr>\<rparr>
                    else run_pipeline_exec env pipeline rest (Suc i) s2)
              else if parallel (config s1) then
                run_pipeline_exec env pipeline rest (Suc i)
                  (deliver (sigint_in_process env fileName)
                     (parallel_process pipeline fileName i s1))
              else run_pipeline_exec env pipeline rest (Suc i) s1))"

text \<open>The second loop of \<open>run_pipeline\<close>: the reaping pass of parallel mode.\<close>

fun run_pipeline_reap :: "os \<Rightarrow> CommandPipeline \<Rightarrow> pid list option list \<Rightarrow> run_state \<Rightarrow> run_state" where
  "run_pipeline_reap env pipeline [] s = s"
| "run_pipeline_reap env pipeline (None # others) s = run_pipeline_reap env pipeline others s"
| "run_pipeline_reap env pipeline (Some children # others) s =
     (case reap_children env pipeline children (stats s) (numCmds pipeline) of
        (counters, ev) \<Rightarrow>
          run_pipeline_reap env pipeline others (s\<lparr>stats := counters, trace := trace s @ ev\<rparr>))"

text \<open>
  \<open>run_pipeline\<close>, given the value of the global flag on entry. In parallel mode the
  array of pid arrays has one zeroed slot per file, otherwise a single slot.
\<close>

definition run_pipeline :: "os \<Rightarrow> CommandPipeline \<Rightarrow> Settings \<Rightarrow> int list \<Rightarrow> string list \<Rightarrow> bool \<Rightarrow> run_state" where
  "run_pipeline env pipeline cfg counters fileList flag =
     (let s = run_pipeline_exec env pipeline fileList 0
                \<lparr>stats = counters, config = cfg,
                 pids = (if parallel cfg then replicate (length fileList) None else [None]),
                 sigintReceived = flag, trace = []\<rparr>
      in if parallel cfg then run_pipeline_reap env pipeline (pids s) s else s)"

text \<open>
  The end of \<open>main\<close>, from the call of \<open>run_pipeline\<close> on: the settings, the pipeline
  and the file list are those the earlier steps of \<open>main\<close> produced. The result is the
  exit status of the program.
\<close>

definition main :: "os \<Rightarrow> CommandPipeline \<Rightarrow> Settings \<Rightarrow> string list \<Rightarrow> bool \<Rightarrow> int" where
  "main env pipeline cfg fileList flag =
     (let s = run_pipeline env pipeline cfg [0, 0, 0, 0, 0] fileList flag
      in if stats s ! NOTEXEC \<noteq> 0 then PROCESS_ERROR
         else if sigInt (config s) then SIGINT_REC
         else 0)"

subsection \<open>Notions for stating the properties\<close>

text \<open>
  The children of one file's pipeline in stage order, the \<open>fork\<close> and \<open>waitpid\<close> calls
  for them, the statuses they terminate with, and the result of validating the file's
  redirections.
\<close>

definition children_of :: "CommandPipeline \<Rightarrow> string \<Rightarrow> pid list" where
  "children_of pipeline fileName = map (Pid fileName) [0..<numCmds pipeline]"

definition fork_events :: "CommandPipeline \<Rightarrow> string \<Rightarrow> event list" where
  "fork_events pipeline fileName =
     map (\<lambda>i. Fork (Pid fileName i) (cmd_copy (cmdArray pipeline ! i) fileName))
       [0..<numCmds pipeline]"

definition wait_events :: "CommandPipeline \<Rightarrow> string \<Rightarrow> event list" where
  "wait_events pipeline fileName = map (\<lambda>i. Waitpid (Pid fileName i)) [0..<numCmds pipeline]"

definition statuses_of :: "os \<Rightarrow> CommandPipeline \<Rightarrow> string \<Rightarrow> wait_status list" where
  "statuses_of env pipeline fileName = map (waitpid env pipeline) (children_of pipeline fileName)"

definition redirection_valid :: "os \<Rightarrow> CommandPipeline \<Rightarrow> string \<Rightarrow> bool" where
  "redirection_valid env pipeline fileName =
     fst (validate_files env (stdinFileName pipeline) (stdoutFileName pipeline) fileName)"

definition validate_events :: "os \<Rightarrow> CommandPipeline \<Rightarrow> string \<Rightarrow> event list" where
  "validate_events env pipeline fileName =
     snd (validate_files env (stdinFileName pipeline) (stdoutFileName pipeline) fileName)"

text \<open>The effect of one classified file on the counters: its category and the total.\<close>

fun bump :: "nat option \<Rightarrow> int list \<Rightarrow> int list" where
  "bump None counters = counters"
| "bump (Some c) counters = incr TOTAL_STATS (incr c counters)"

text \<open>No SIGINT arrives while any of the files is validated or run.\<close>

definition quiet :: "os \<Rightarrow> string list \<Rightarrow> bool" where
  "quiet env fs \<longleftrightarrow> (\<forall>g \<in> set fs. \<not> sigint_in_validate env g \<and> \<not> sigint_in_process env g)"

text \<open>
  What sequential mode does for one file when the flag is not set: the category it is
  counted in and the events it causes.
\<close>

definition seq_category :: "os \<Rightarrow> CommandPipeline \<Rightarrow> string \<Rightarrow> nat" where
  "seq_category env pipeline g =
     (if redirection_valid env pipeline g then outcome_spec (statuses_of env pipeline g)
      else NOTEXEC)"

definition seq_events :: "os \<Rightarrow> CommandPipeline \<Rightarrow> string \<Rightarrow> event list" where
  "seq_events env pipeline g =
     validate_events env pipeline g @
     (if redirection_valid env pipeline g then fork_events pipeline g @ wait_events pipeline g
      else [])"

text \<open>The value of the flag when the loop tests it for each file, in parallel mode.\<close>

fun par_flags :: "os \<Rightarrow> CommandPipeline \<Rightarrow> string list \<Rightarrow> bool \<Rightarrow> bool list" where
  "par_flags env pipeline [] flag = []"
| "par_flags env pipeline (f # rest) flag =
     (flag \<or> sigint_in_validate env f) #
     par_flags env pipeline rest
       (flag \<or> sigint_in_validate env f \<or>
        (redirection_valid env pipeline f \<and> sigint_in_process env f))"

text \<open>
  What parallel mode does for one file, given the flag when the loop tests it: whether
  the pipeline is spawned, the slot of the pid array, and the events and the category of
  the spawning pass and of the reaping pass.
\<close>

definition par_spawned :: "os \<Rightarrow> CommandPipeline \<Rightarrow> string \<times> bool \<Rightarrow> bool" where
  "par_spawned env pipeline z \<longleftrightarrow> redirection_valid env pipeline (fst z) \<or> snd z"

definition par_slot :: "os \<Rightarrow> CommandPipeline \<Rightarrow> string \<times> bool \<Rightarrow> pid list option" where
  "par_slot env pipeline z =
     (if par_spawned env pipeline z then Some (children_of pipeline (fst z)) else None)"

definition par_exec_events :: "os \<Rightarrow> CommandPipeline \<Rightarrow> string \<times> bool \<Rightarrow> event list" where
  "par_exec_events env pipeline z =
     validate_events env pipeline (fst z) @
     (if par_spawned env pipeline z then fork_events pipeline (fst z) else [])"

definition par_exec_category :: "os \<Rightarrow> CommandPipeline \<Rightarrow> string \<times> bool \<Rightarrow> nat option" where
  "par_exec_category env pipeline z =
     (if par_spawned env pipeline z then None else Some NOTEXEC)"

definition par_reap_events :: "os \<Rightarrow> CommandPipeline \<Rightarrow> string \<times> bool \<Rightarrow> event list" where
  "par_reap_events env pipeline z =
     (if par_spawned env pipeline z then wait_events pipeline (fst z) else [])"

definition par_reap_category :: "os \<Rightarrow> CommandPipeline \<Rightarrow> string \<times> bool \<Rightarrow> nat option" where
  "par_reap_category env pipeline z =
     (if par_spawned env pipeline z then Some (outcome_spec (statuses_of env pipeline (fst z)))
      else None)"

text \<open>
  The counters are well formed and, once the child has been waited for, the NotExecuted
  counter is positive.
\<close>

definition counted :: "pid \<Rightarrow> run_state \<Rightarrow> bool" where
  "counted p s \<longleftrightarrow>
     length (stats s) = 5 \<and> 0 \<le> stats s ! NOTEXEC \<and>
     (Waitpid p \<in> set (trace s) \<longrightarrow> 0 < stats s ! NOTEXEC)"


text \<open>The \<open>fork\<close> and \<open>waitpid\<close> events of a trace that concern the children of one file.\<close>

definition process_events_of :: "string \<Rightarrow> event list \<Rightarrow> event list" where
  "process_events_of f tr =
     filter (\<lambda>e. case e of Fork (Pid g i) argv \<Rightarrow> g = f | Waitpid (Pid g i) \<Rightarrow> g = f | _ \<Rightarrow> False) tr"

subsection \<open>A small run\<close>

text \<open>
  Three files and the pipeline \<open>cat < {}.in | wc -l {}\<close>: the input of \<open>b\<close> cannot be
  opened, and the \<open>cat\<close> of \<open>c\<close> is killed by signal 9.
\<close>

definition example_env :: os where
  "example_env =
     \<lparr>os_open = (\<lambda>path mode. if path = ''b.in'' then - 1 else 3),
      os_execvp = (\<lambda>p argv. if p = Pid ''c'' 0 then Terminated (Signaled 9)
                              else Terminated (Exited 0)),
      sigint_in_validate = (\<lambda>f. False),
      sigint_in_process = (\<lambda>f. False)\<rparr>"

definition example_pipeline :: CommandPipeline where
  "example_pipeline =
     \<lparr>cmdArray = [[''cat''], [''wc'', ''-l'', ''{}'']],
      stdinFileName = Some ''{}.in'', stdoutFileName = None\<rparr>"

definition example_cfg :: Settings where
  "example_cfg =
     \<lparr>dir = None, dirDefault = True, parallel = False, statistics = True,
      allfiles = False, cmd = Some ''cat < {}.in | wc -l {}'', processFailed = False,
      sigInt = False\<rparr>"

definition example_files :: "string list" where
  "example_files = [''a'', ''b'', ''c'']"

text \<open>
  Variants of the small run: SIGINT arrives while the pipeline of \<open>a\<close> runs; no program
  can be executed; every program runs and exits with code 99.
\<close>

definition example_env_interrupt :: os where
  "example_env_interrupt = example_env\<lparr>sigint_in_process := (\<lambda>f. f = ''a'')\<rparr>"


definition example_env_exits_99 :: os where
  "example_env_exits_99 = example_env\<lparr>os_execvp := (\<lambda>p argv. Terminated (Exited 99))\<rparr>"

text \<open>
  Further variants: SIGINT arrives while the redirections of \<open>c\<close> are validated;
  every program exits with code 99 and SIGINT arrives while the pipeline of \<open>a\<close> runs.
\<close>

definition example_env_late_interrupt :: os where
  "example_env_late_interrupt = example_env\<lparr>sigint_in_validate := (\<lambda>f. f = ''c'')\<rparr>"

definition example_env_exits_99_interrupt :: os where
  "example_env_exits_99_interrupt = example_env_exits_99\<lparr>sigint_in_process := (\<lambda>f. f = ''a'')\<rparr>"

section \<open>Properties\<close>

subsection \<open>Placeholder substitution refines its specification\<close>

declare count_placeholders_loop.simps [simp del]
declare handle_placeholders_loop.simps [simp del]

lemma strstr_marker_miss:
  "\<not> (a = CHR ''{'' \<and> b = CHR ''}'') \<Longrightarrow>
   strstr (a # b # cs) ''{}'' = map_option Suc (strstr (b # cs) ''{}'')"
  by auto

lemma count_placeholders_loop_spec:
  "count_placeholders_loop s n = n + occurrences_spec s"
proof (induction s arbitrary: n rule: occurrences_spec.induct)
  case (1 a b cs)
  show ?case
  proof (cases "a = CHR ''{'' \<and> b = CHR ''}''")
    case True
    then show ?thesis
      using "1.IH"(1) [of "Suc n"]
      by (subst count_placeholders_loop.simps) simp
  next
    case False
    have "count_placeholders_loop (a # b # cs) n = count_placeholders_loop (b # cs) n"
      using strstr_marker_miss [OF False, of cs]
      by (cases "strstr (b # cs) ''{}''")
         (simp_all add: count_placeholders_loop.simps [of "a # b # cs"]
            count_placeholders_loop.simps [of "b # cs"] del: strstr.simps)
    then show ?thesis
      using False "1.IH"(2) [of n] by auto
  qed
next
  case (2 a)
  show ?case by (subst count_placeholders_loop.simps) simp
next
  case 3
  show ?case by (subst count_placeholders_loop.simps) simp
qed

lemma handle_placeholders_loop_spec:
  "handle_placeholders_loop s fill acc = acc @ substitute_spec s fill"
proof (induction s fill arbitrary: acc rule: substitute_spec.induct)
  case (1 a b cs fill)
  show ?case
  proof (cases "a = CHR ''{'' \<and> b = CHR ''}''")
    case True
    then show ?thesis
      using "1.IH"(1) [of "acc @ fill"]
      by (subst handle_placeholders_loop.simps) simp
  next
    case False
    have "handle_placeholders_loop (a # b # cs) fill acc
          = handle_placeholders_loop (b # cs) fill (acc @ [a])"
      using strstr_marker_miss [OF False, of cs]
      by (cases "strstr (b # cs) ''{}''")
         (simp_all add: handle_placeholders_loop.simps [of "a # b # cs"]
            handle_placeholders_loop.simps [of "b # cs"] del: strstr.simps)
    then show ?thesis
      using False "1.IH"(2) [of "acc @ [a]"] by auto
  qed
next
  case (2 a fill)
  show ?case by (subst handle_placeholders_loop.simps) simp
next
  case (3 fill)
  show ?case by (subst handle_placeholders_loop.simps) simp
qed

lemma count_placeholders_spec: "count_placeholders s = occurrences_spec s"
  by (simp add: count_placeholders_def count_placeholders_loop_spec)

lemma substitute_spec_no_marker: "occurrences_spec s = 0 \<Longrightarrow> substitute_spec s fill = s"
  by (induction s fill rule: substitute_spec.induct) (auto split: if_splits)

lemma handle_placeholders_spec: "handle_placeholders s fill = substitute_spec s fill"
  by (simp add: handle_placeholders_def count_placeholders_spec handle_placeholders_loop_spec
      substitute_spec_no_marker Let_def)

lemma substitute_spec_length:
  "length (substitute_spec s fill) + 2 * occurrences_spec s
     = length s + occurrences_spec s * length fill"
  by (induction s fill rule: substitute_spec.induct) auto

lemma occurrences_spec_bound: "2 * occurrences_spec s \<le> length s"
  by (induction s rule: occurrences_spec.induct) auto

lemma occurrences_spec_Cons:
  "\<not> (a = CHR ''{'' \<and> r \<noteq> [] \<and> hd r = CHR ''}'') \<Longrightarrow>
   occurrences_spec (a # r) = occurrences_spec r"
  by (cases r) auto

lemma occurrences_spec_append:
  "xs = [] \<or> ys = [] \<or> \<not> (last xs = CHR ''{'' \<and> hd ys = CHR ''}'') \<Longrightarrow>
   occurrences_spec (xs @ ys) = occurrences_spec xs + occurrences_spec ys"
proof (induction xs rule: occurrences_spec.induct)
  case (1 a b cs)
  then show ?case by (cases "cs = []") auto
next
  case (2 a)
  then show ?case by (cases ys) auto
next
  case 3
  show ?case by simp
qed

lemma substitute_spec_hd:
  "fill \<noteq> [] \<Longrightarrow> hd fill \<noteq> CHR ''}'' \<Longrightarrow> s \<noteq> [] \<Longrightarrow> hd s \<noteq> CHR ''}'' \<Longrightarrow>
   substitute_spec s fill \<noteq> [] \<and> hd (substitute_spec s fill) \<noteq> CHR ''}''"
  by (cases "(s, fill)" rule: substitute_spec.cases) auto

lemma occurrences_substitute_spec:
  assumes "fill \<noteq> []" "hd fill \<noteq> CHR ''}''" "last fill \<noteq> CHR ''{''"
  shows "occurrences_spec (substitute_spec s fill) = occurrences_spec s * occurrences_spec fill"
  using assms
proof (induction s fill rule: substitute_spec.induct)
  case (1 a b cs fill)
  show ?case
  proof (cases "a = CHR ''{'' \<and> b = CHR ''}''")
    case True
    then show ?thesis
      using 1 by (simp add: occurrences_spec_append)
  next
    case False
    have "occurrences_spec (a # substitute_spec (b # cs) fill)
          = occurrences_spec (substitute_spec (b # cs) fill)"
    proof (rule occurrences_spec_Cons)
      show "\<not> (a = CHR ''{'' \<and> substitute_spec (b # cs) fill \<noteq> [] \<and>
                hd (substitute_spec (b # cs) fill) = CHR ''}'')"
        using False substitute_spec_hd [OF "1.prems"(1,2), of "b # cs"] by auto
    qed
    then show ?thesis
      using False 1 by auto
  qed
next
  case (2 a fill)
  show ?case by simp
next
  case (3 fill)
  show ?case by simp
qed

text \<open>
  C2 (as amended). For every template \<open>T\<close> and fill string \<open>F\<close>, with \<open>n\<close> the number of
  non-overlapping marker occurrences that \<open>count_placeholders\<close> finds in \<open>T\<close>:
  \<open>handle_placeholders\<close> returns \<open>T\<close> with every occurrence replaced, left to right, by
  \<open>F\<close>; the result has length \<open>len(T) - 2n + n * len(F)\<close>, which with the terminator is
  the size allocated; when \<open>n = 0\<close> the result is \<open>T\<close>; and when \<open>F\<close> is not empty, does not
  begin with the closing brace and does not end with the opening brace, re-scanning the
  result finds exactly the \<open>n\<close> copies of the occurrences inside \<open>F\<close>.
\<close>

theorem handle_placeholders_substitutes:
  "handle_placeholders T F = substitute_spec T F \<and>
   length (handle_placeholders T F)
     = length T - 2 * count_placeholders T + count_placeholders T * length F \<and>
   length (handle_placeholders T F) + 1 = handle_placeholders_size T F \<and>
   (count_placeholders T = 0 \<longrightarrow> handle_placeholders T F = T) \<and>
   (F \<noteq> [] \<and> hd F \<noteq> CHR ''}'' \<and> last F \<noteq> CHR ''{'' \<longrightarrow>
      count_placeholders (handle_placeholders T F)
        = count_placeholders T * count_placeholders F)"
proof -
  have len: "length (handle_placeholders T F)
     = length T - 2 * count_placeholders T + count_placeholders T * length F"
    using substitute_spec_length [of T F] occurrences_spec_bound [of T]
    by (simp add: handle_placeholders_spec count_placeholders_spec)
  have size: "length (handle_placeholders T F) + 1 = handle_placeholders_size T F"
    using len by (simp add: handle_placeholders_size_def Let_def mult.commute)
  have copy: "count_placeholders T = 0 \<longrightarrow> handle_placeholders T F = T"
    by (simp add: handle_placeholders_def)
  have rescan: "F \<noteq> [] \<and> hd F \<noteq> CHR ''}'' \<and> last F \<noteq> CHR ''{'' \<longrightarrow>
      count_placeholders (handle_placeholders T F)
        = count_placeholders T * count_placeholders F"
    by (simp add: handle_placeholders_spec count_placeholders_spec occurrences_substitute_spec)
  show ?thesis
    using len size copy rescan handle_placeholders_spec [of T F] by blast
qed

theorem handle_placeholders_substitutes_witness:
  "handle_placeholders ''cp {} {}.bak'' ''a.txt'' = ''cp a.txt a.txt.bak'' \<and>
   count_placeholders ''cp {} {}.bak'' = 2 \<and>
   length (handle_placeholders ''cp {} {}.bak'' ''a.txt'') = 12 - 2 * 2 + 2 * 5 \<and>
   ''a.txt'' \<noteq> [] \<and> hd ''a.txt'' \<noteq> CHR ''}'' \<and> last ''a.txt'' \<noteq> CHR ''{'' \<and>
   count_placeholders (handle_placeholders ''cp {} {}.bak'' ''a.txt'') = 0"
  using handle_placeholders_substitutes [of "''cp {} {}.bak''" "''a.txt''"]
  by (simp add: count_placeholders_spec)

text \<open>
  C2, counterexample to the re-scanning property for arbitrary fill strings: without
  the side condition on \<open>F\<close> a marker can form across the seam between template
  text and fill text: the template \<open>{{}\<close> filled with \<open>}\<close> becomes \<open>{}\<close>, although the fill
  string holds no marker.
\<close>

theorem handle_placeholders_rescan_counterexample:
  "count_placeholders ''{{}'' = 1 \<and> count_placeholders ''}'' = 0 \<and>
   handle_placeholders ''{{}'' ''}'' = ''{}'' \<and>
   count_placeholders (handle_placeholders ''{{}'' ''}'')
     \<noteq> count_placeholders ''{{}'' * count_placeholders ''}''"
  by (simp add: handle_placeholders_spec count_placeholders_spec)

subsection \<open>Classification\<close>

lemma count_stats_loop_flags:
  "count_stats_loop statuses (fail, signal, notexec) =
     (fail \<or> (\<exists>st \<in> set statuses. exited_nonzero st),
      signal \<or> (\<exists>st \<in> set statuses. signal_terminated st),
      notexec \<or> (\<exists>st \<in> set statuses. could_not_execute st))"
proof (induction statuses arbitrary: fail signal notexec)
  case Nil
  show ?case by simp
next
  case (Cons st statuses)
  show ?case
    by (cases st)
       (auto simp: Cons.IH exited_nonzero_def signal_terminated_def could_not_execute_def)
qed

lemma count_stats_outcome:
  "count_stats counters statuses (length statuses)
     = incr TOTAL_STATS (incr (outcome_spec statuses) counters)"
  by (simp add: count_stats_def count_stats_loop_flags outcome_spec_def)

lemma outcome_spec_category: "outcome_spec statuses \<in> {SUCCESS, FAIL, SIGNAL, NOTEXEC}"
  by (simp add: outcome_spec_def)

lemma length_incr: "length (incr j counters) = length counters"
  by (simp add: incr_def)

lemma nth_incr:
  "j < length counters \<Longrightarrow> incr j counters ! k = counters ! k + (if k = j then 1 else 0)"
  by (simp add: incr_def nth_list_update)

text \<open>
  C1. For the statuses of one file's stages, \<open>count_stats\<close> follows the fixed priority
  over all stages (any "could not execute" status: NotExecuted; else any death by signal:
  SignalTerminated; else any other nonzero exit code: Failure; else Success), and
  increments exactly the counter of that category and the total, by one each.
\<close>

theorem count_stats_classifies:
  assumes "length counters = 5"
  shows "outcome_spec statuses \<in> {SUCCESS, FAIL, SIGNAL, NOTEXEC} \<and>
         length (count_stats counters statuses (length statuses)) = 5 \<and>
         (\<forall>k < 5. count_stats counters statuses (length statuses) ! k
            = counters ! k + (if k = outcome_spec statuses \<or> k = TOTAL_STATS then 1 else 0))"
proof -
  have cat: "outcome_spec statuses < 4"
    using outcome_spec_category [of statuses] by (auto simp: Values_defs)
  have "\<forall>k < 5. incr TOTAL_STATS (incr (outcome_spec statuses) counters) ! k
            = counters ! k + (if k = outcome_spec statuses \<or> k = TOTAL_STATS then 1 else 0)"
    using assms cat by (auto simp: nth_incr length_incr TOTAL_STATS_def)
  then show ?thesis
    using assms outcome_spec_category [of statuses]
    by (simp add: count_stats_outcome length_incr)
qed

theorem count_stats_classifies_witness:
  "length [0, 0, 0, 0, 0 :: int] = 5 \<and> outcome_spec [Exited 0, Signaled 9, Exited 99, Exited 1] = NOTEXEC \<and>
   count_stats [0, 0, 0, 0, 0] [Exited 0, Signaled 9, Exited 99, Exited 1] 4 = [0, 0, 0, 1, 1] \<and>
   count_stats [0, 0, 0, 0, 0] [Exited 0, Signaled 9, Exited 1] 3 = [0, 0, 1, 0, 1] \<and>
   count_stats [0, 0, 0, 0, 0] [Exited 0, Exited 1] 2 = [0, 1, 0, 0, 1] \<and>
   count_stats [0, 0, 0, 0, 0] [Exited 0, Exited 0] 2 = [1, 0, 0, 0, 1]"
  using count_stats_classifies [of "[0, 0, 0, 0, 0]" "[Exited 0, Signaled 9, Exited 99, Exited 1]"]
  by (simp add: count_stats_def incr_def Values_defs CHILD_PROCESS_ERROR_def outcome_spec_def
      could_not_execute_def)

subsection \<open>One file's pipeline\<close>

lemma exec_cmd_eq: "exec_cmd pipeline f = (children_of pipeline f, fork_events pipeline f)"
  by (simp add: exec_cmd_def spawn_child_def children_of_def fork_events_def Let_def comp_def)

lemma length_children_of [simp]: "length (children_of pipeline f) = numCmds pipeline"
  by (simp add: children_of_def)

lemma length_statuses_of [simp]: "length (statuses_of env pipeline f) = numCmds pipeline"
  by (simp add: statuses_of_def)

lemma reap_children_eq:
  "reap_children env pipeline (children_of pipeline f) counters (numCmds pipeline)
     = (bump (Some (outcome_spec (statuses_of env pipeline f))) counters, wait_events pipeline f)"
  using count_stats_outcome [of counters "statuses_of env pipeline f"]
  by (simp add: reap_children_def statuses_of_def wait_events_def children_of_def comp_def)

lemma sequential_process_eq:
  "sequential_process env pipeline f s =
     s\<lparr>stats := bump (Some (outcome_spec (statuses_of env pipeline f))) (stats s),
       pids := (pids s)[0 := Some (children_of pipeline f)],
       trace := trace s @ fork_events pipeline f @ wait_events pipeline f\<rparr>"
  by (simp add: sequential_process_def exec_cmd_eq reap_children_eq)

lemma parallel_process_eq:
  "parallel_process pipeline f i s =
     s\<lparr>pids := (pids s)[i := Some (children_of pipeline f)],
       trace := trace s @ fork_events pipeline f\<rparr>"
  by (simp add: parallel_process_def exec_cmd_eq)

lemma parallel_process_fields [simp]:
  "stats (parallel_process pipeline f i s) = stats s"
  "config (parallel_process pipeline f i s) = config s"
  "pids (parallel_process pipeline f i s) = (pids s)[i := Some (children_of pipeline f)]"
  "trace (parallel_process pipeline f i s) = trace s @ fork_events pipeline f"
  "sigintReceived (parallel_process pipeline f i s) = sigintReceived s"
  by (simp_all add: parallel_process_eq)

lemma sequential_process_fields [simp]:
  "stats (sequential_process env pipeline f s)
     = bump (Some (outcome_spec (statuses_of env pipeline f))) (stats s)"
  "config (sequential_process env pipeline f s) = config s"
  "pids (sequential_process env pipeline f s) = (pids s)[0 := Some (children_of pipeline f)]"
  "trace (sequential_process env pipeline f s)
     = trace s @ fork_events pipeline f @ wait_events pipeline f"
  "sigintReceived (sequential_process env pipeline f s) = sigintReceived s"
  by (simp_all add: sequential_process_eq)

lemma deliver_fields [simp]:
  "stats (deliver b s) = stats s"
  "config (deliver b s) = config s"
  "pids (deliver b s) = pids s"
  "trace (deliver b s) = trace s"
  "sigintReceived (deliver b s) \<longleftrightarrow> b \<or> sigintReceived s"
  by (simp_all add: deliver_def handle_sigint_def)

lemma validate_files_pair:
  "validate_files env (stdinFileName pipeline) (stdoutFileName pipeline) f
     = (redirection_valid env pipeline f, validate_events env pipeline f)"
  by (simp add: redirection_valid_def validate_events_def)

lemma update_trace_stats:
  "s\<lparr>trace := t, stats := c\<rparr> = s\<lparr>stats := c, trace := t\<rparr>"
  by (cases s) simp

subsection \<open>One iteration of the scheduler loop\<close>

lemma exec_step_notexec:
  assumes "\<not> redirection_valid env pipeline f" "\<not> sigintReceived s" "\<not> sigint_in_validate env f"
  shows "run_pipeline_exec env pipeline (f # rest) i s =
           run_pipeline_exec env pipeline rest (Suc i)
             (s\<lparr>trace := trace s @ validate_events env pipeline f,
                stats := bump (Some NOTEXEC) (stats s)\<rparr>)"
  using assms by (simp add: validate_files_pair Let_def deliver_def)

lemma exec_step_sequential:
  assumes "redirection_valid env pipeline f" "\<not> parallel (config s)" "\<not> sigintReceived s"
    "\<not> sigint_in_validate env f"
  shows "run_pipeline_exec env pipeline (f # rest) i s =
           (let s2 = deliver (sigint_in_process env f)
                       (sequential_process env pipeline f
                          (s\<lparr>trace := trace s @ validate_events env pipeline f\<rparr>))
            in if sigintReceived s2 \<and> rest \<noteq> [] then s2\<lparr>config := (config s2)\<lparr>sigInt := True\<rparr>\<rparr>
               else run_pipeline_exec env pipeline rest (Suc i) s2)"
  using assms by (simp add: validate_files_pair Let_def deliver_def)

lemma exec_step_skipped:
  assumes "\<not> parallel (config s)" "sigintReceived s \<or> sigint_in_validate env f"
  shows "run_pipeline_exec env pipeline (f # rest) i s =
           run_pipeline_exec env pipeline rest (Suc i)
             (deliver (sigint_in_validate env f)
                (s\<lparr>trace := trace s @ validate_events env pipeline f\<rparr>))"
  using assms by (auto simp add: validate_files_pair Let_def)

lemma exec_step_parallel:
  assumes "parallel (config s)" "redirection_valid env pipeline f \<or> sigintReceived s \<or> sigint_in_validate env f"
  shows "run_pipeline_exec env pipeline (f # rest) i s =
           run_pipeline_exec env pipeline rest (Suc i)
             (deliver (sigint_in_process env f)
                (parallel_process pipeline f i
                   (deliver (sigint_in_validate env f)
                      (s\<lparr>trace := trace s @ validate_events env pipeline f\<rparr>))))"
  using assms by (auto simp add: validate_files_pair Let_def)

declare run_pipeline_exec.simps(2) [simp del]

subsection \<open>Sequential mode without an interrupt\<close>

lemma quiet_Cons:
  "quiet env (f # fs) \<longleftrightarrow> \<not> sigint_in_validate env f \<and> \<not> sigint_in_process env f \<and> quiet env fs"
  by (auto simp: quiet_def)

lemma exec_step_quiet:
  assumes "\<not> parallel (config s)" "\<not> sigintReceived s"
    "\<not> sigint_in_validate env f" "\<not> sigint_in_process env f"
  shows "run_pipeline_exec env pipeline (f # rest) i s =
           run_pipeline_exec env pipeline rest (Suc i)
             (s\<lparr>stats := bump (Some (seq_category env pipeline f)) (stats s),
                pids := (if redirection_valid env pipeline f
                         then (pids s)[0 := Some (children_of pipeline f)] else pids s),
                trace := trace s @ seq_events env pipeline f\<rparr>)"
proof (cases "redirection_valid env pipeline f")
  case True
  then show ?thesis
    using assms
    by (simp add: exec_step_sequential sequential_process_eq deliver_def seq_category_def
        seq_events_def Let_def)
next
  case False
  then show ?thesis
    using assms
    by (simp add: exec_step_notexec seq_category_def seq_events_def update_trace_stats)
qed

lemma seq_quiet_run:
  assumes "\<not> parallel (config s)" "\<not> sigintReceived s" "quiet env fs"
  shows "stats (run_pipeline_exec env pipeline fs i s)
           = fold (\<lambda>g. bump (Some (seq_category env pipeline g))) fs (stats s) \<and>
         trace (run_pipeline_exec env pipeline fs i s)
           = trace s @ concat (map (seq_events env pipeline) fs) \<and>
         config (run_pipeline_exec env pipeline fs i s) = config s \<and>
         \<not> sigintReceived (run_pipeline_exec env pipeline fs i s)"
  using assms
proof (induction fs arbitrary: i s)
  case Nil
  then show ?case by simp
next
  case (Cons f rest)
  let ?s' = "s\<lparr>stats := bump (Some (seq_category env pipeline f)) (stats s),
                pids := (if redirection_valid env pipeline f
                         then (pids s)[0 := Some (children_of pipeline f)] else pids s),
                trace := trace s @ seq_events env pipeline f\<rparr>"
  from Cons.prems have q: "\<not> sigint_in_validate env f" "\<not> sigint_in_process env f" "quiet env rest"
    by (simp_all add: quiet_Cons)
  have step: "run_pipeline_exec env pipeline (f # rest) i s
                = run_pipeline_exec env pipeline rest (Suc i) ?s'"
    using Cons.prems(1,2) q(1,2) by (rule exec_step_quiet)
  have "\<not> parallel (config ?s')" "\<not> sigintReceived ?s'"
    using Cons.prems by simp_all
  from Cons.IH [OF this q(3), of "Suc i"] show ?case
    by (simp add: step)
qed

lemma seq_quiet_append:
  assumes "\<not> parallel (config s)" "\<not> sigintReceived s" "quiet env fs"
  shows "run_pipeline_exec env pipeline (fs @ gs) i s
           = run_pipeline_exec env pipeline gs (i + length fs)
               (run_pipeline_exec env pipeline fs i s)"
  using assms
proof (induction fs arbitrary: i s)
  case Nil
  then show ?case by simp
next
  case (Cons f rest)
  let ?s' = "s\<lparr>stats := bump (Some (seq_category env pipeline f)) (stats s),
                pids := (if redirection_valid env pipeline f
                         then (pids s)[0 := Some (children_of pipeline f)] else pids s),
                trace := trace s @ seq_events env pipeline f\<rparr>"
  from Cons.prems have q: "\<not> sigint_in_validate env f" "\<not> sigint_in_process env f" "quiet env rest"
    by (simp_all add: quiet_Cons)
  have step: "run_pipeline_exec env pipeline (f # more) i s
                = run_pipeline_exec env pipeline more (Suc i) ?s'" for more
    using Cons.prems(1,2) q(1,2) by (rule exec_step_quiet)
  have "\<not> parallel (config ?s')" "\<not> sigintReceived ?s'"
    using Cons.prems by simp_all
  from Cons.IH [OF this q(3), of "Suc i"] show ?case
    using step [of "rest @ gs"] step [of rest] by simp
qed

subsection \<open>Parallel mode\<close>

lemma length_par_flags [simp]: "length (par_flags env pipeline fs flag) = length fs"
  by (induction fs arbitrary: flag) simp_all

lemma par_exec_run:
  assumes "parallel (config s)" "pids s = ps @ replicate (length fs) None" "length ps = i"
  shows "stats (run_pipeline_exec env pipeline fs i s)
           = fold (\<lambda>z. bump (par_exec_category env pipeline z))
               (zip fs (par_flags env pipeline fs (sigintReceived s))) (stats s) \<and>
         trace (run_pipeline_exec env pipeline fs i s)
           = trace s @ concat (map (par_exec_events env pipeline)
               (zip fs (par_flags env pipeline fs (sigintReceived s)))) \<and>
         pids (run_pipeline_exec env pipeline fs i s)
           = ps @ map (par_slot env pipeline)
               (zip fs (par_flags env pipeline fs (sigintReceived s))) \<and>
         config (run_pipeline_exec env pipeline fs i s) = config s"
  using assms
proof (induction fs arbitrary: i s ps)
  case Nil
  then show ?case by simp
next
  case (Cons f rest)
  let ?fl = "sigintReceived s \<or> sigint_in_validate env f"
  let ?fl' = "?fl \<or> (redirection_valid env pipeline f \<and> sigint_in_process env f)"
  have pids_s: "pids s = ps @ None # replicate (length rest) None"
    using Cons.prems(2) by simp
  show ?case
  proof (cases "par_spawned env pipeline (f, ?fl)")
    case True
    let ?s' = "deliver (sigint_in_process env f)
                (parallel_process pipeline f i
                   (deliver (sigint_in_validate env f)
                      (s\<lparr>trace := trace s @ validate_events env pipeline f\<rparr>)))"
    from True have sp: "redirection_valid env pipeline f \<or> sigintReceived s \<or> sigint_in_validate env f"
      by (simp add: par_spawned_def)
    have step: "run_pipeline_exec env pipeline (f # rest) i s
                  = run_pipeline_exec env pipeline rest (Suc i) ?s'"
      using Cons.prems(1) sp by (rule exec_step_parallel)
    have flag: "sigintReceived ?s' = ?fl'"
      using sp by auto
    have slots: "pids ?s' = (ps @ [Some (children_of pipeline f)]) @ replicate (length rest) None"
      using pids_s Cons.prems(3) by (simp add: list_update_append)
    have "parallel (config ?s')"
      using Cons.prems(1) by simp
    from Cons.IH [OF this slots, of "Suc i"]
    have IH: "stats (run_pipeline_exec env pipeline rest (Suc i) ?s')
           = fold (\<lambda>z. bump (par_exec_category env pipeline z))
               (zip rest (par_flags env pipeline rest ?fl')) (stats ?s') \<and>
         trace (run_pipeline_exec env pipeline rest (Suc i) ?s')
           = trace ?s' @ concat (map (par_exec_events env pipeline)
               (zip rest (par_flags env pipeline rest ?fl'))) \<and>
         pids (run_pipeline_exec env pipeline rest (Suc i) ?s')
           = (ps @ [Some (children_of pipeline f)]) @ map (par_slot env pipeline)
               (zip rest (par_flags env pipeline rest ?fl')) \<and>
         config (run_pipeline_exec env pipeline rest (Suc i) ?s') = config ?s'"
      using Cons.prems(3) by (simp only: flag length_append_singleton simp_thms)
    show ?thesis
      unfolding step
      using IH True
      by (simp add: par_exec_category_def [of env pipeline "(f, ?fl)"]
          par_exec_events_def [of env pipeline "(f, ?fl)"] par_slot_def [of env pipeline "(f, ?fl)"])
  next
    case False
    let ?s' = "s\<lparr>trace := trace s @ validate_events env pipeline f,
                 stats := bump (Some NOTEXEC) (stats s)\<rparr>"
    from False have ns: "\<not> redirection_valid env pipeline f" "\<not> sigintReceived s"
      "\<not> sigint_in_validate env f"
      by (simp_all add: par_spawned_def)
    have step: "run_pipeline_exec env pipeline (f # rest) i s
                  = run_pipeline_exec env pipeline rest (Suc i) ?s'"
      using ns by (rule exec_step_notexec)
    have flag: "sigintReceived ?s' = ?fl'"
      using ns by simp
    have slots: "pids ?s' = (ps @ [None]) @ replicate (length rest) None"
      using pids_s by simp
    have "parallel (config ?s')"
      using Cons.prems(1) by simp
    from Cons.IH [OF this slots, of "Suc i"]
    have IH: "stats (run_pipeline_exec env pipeline rest (Suc i) ?s')
           = fold (\<lambda>z. bump (par_exec_category env pipeline z))
               (zip rest (par_flags env pipeline rest ?fl')) (stats ?s') \<and>
         trace (run_pipeline_exec env pipeline rest (Suc i) ?s')
           = trace ?s' @ concat (map (par_exec_events env pipeline)
               (zip rest (par_flags env pipeline rest ?fl'))) \<and>
         pids (run_pipeline_exec env pipeline rest (Suc i) ?s')
           = (ps @ [None]) @ map (par_slot env pipeline)
               (zip rest (par_flags env pipeline rest ?fl')) \<and>
         config (run_pipeline_exec env pipeline rest (Suc i) ?s') = config ?s'"
      using Cons.prems(3) by (simp only: flag length_append_singleton simp_thms)
    show ?thesis
      unfolding step
      using IH False
      by (simp add: par_exec_category_def [of env pipeline "(f, ?fl)"]
          par_exec_events_def [of env pipeline "(f, ?fl)"] par_slot_def [of env pipeline "(f, ?fl)"])
  qed
qed

lemma par_reap_run:
  "stats (run_pipeline_reap env pipeline (map (par_slot env pipeline) zs) s)
     = fold (\<lambda>z. bump (par_reap_category env pipeline z)) zs (stats s) \<and>
   trace (run_pipeline_reap env pipeline (map (par_slot env pipeline) zs) s)
     = trace s @ concat (map (par_reap_events env pipeline) zs) \<and>
   config (run_pipeline_reap env pipeline (map (par_slot env pipeline) zs) s) = config s"
proof (induction zs arbitrary: s)
  case Nil
  show ?case by simp
next
  case (Cons z zs)
  show ?case
  proof (cases "par_spawned env pipeline z")
    case True
    let ?s' = "s\<lparr>stats := bump (par_reap_category env pipeline z) (stats s),
                 trace := trace s @ par_reap_events env pipeline z\<rparr>"
    have "run_pipeline_reap env pipeline (map (par_slot env pipeline) (z # zs)) s
            = run_pipeline_reap env pipeline (map (par_slot env pipeline) zs) ?s'"
      using True
      by (simp add: par_slot_def [of env pipeline z] par_reap_category_def par_reap_events_def
          reap_children_eq)
    then show ?thesis
      using Cons.IH [of ?s'] by simp
  next
    case False
    have "run_pipeline_reap env pipeline (map (par_slot env pipeline) (z # zs)) s
            = run_pipeline_reap env pipeline (map (par_slot env pipeline) zs) s"
      using False by (simp add: par_slot_def [of env pipeline z])
    then show ?thesis
      using False Cons.IH [of s] by (simp add: par_reap_category_def par_reap_events_def)
  qed
qed

subsection \<open>Counters\<close>

lemma incr_commute: "incr a (incr b counters) = incr b (incr a counters)"
  by (cases "a = b") (simp_all add: incr_def list_update_swap)

lemma bump_commute: "bump a (bump b counters) = bump b (bump a counters)"
proof (cases a)
  case None
  then show ?thesis by simp
next
  case (Some x)
  show ?thesis
  proof (cases b)
    case None
    then show ?thesis by simp
  next
    case (Some y)
    have "incr TOTAL_STATS (incr x (incr TOTAL_STATS (incr y counters)))
          = incr TOTAL_STATS (incr TOTAL_STATS (incr x (incr y counters)))"
      by (simp add: incr_commute [of x TOTAL_STATS])
    also have "\<dots> = incr TOTAL_STATS (incr TOTAL_STATS (incr y (incr x counters)))"
      by (simp add: incr_commute [of x y])
    also have "\<dots> = incr TOTAL_STATS (incr y (incr TOTAL_STATS (incr x counters)))"
      by (simp add: incr_commute [of y TOTAL_STATS])
    finally show ?thesis
      using \<open>a = Some x\<close> Some by simp
  qed
qed

lemma bump_fold_commute:
  "bump a (fold (\<lambda>z. bump (A z)) zs counters) = fold (\<lambda>z. bump (A z)) zs (bump a counters)"
proof (induction zs arbitrary: counters)
  case Nil
  show ?case by simp
next
  case (Cons z zs)
  show ?case
    by (simp add: Cons.IH bump_commute [of a "A z"])
qed

lemma fold_bump_two_passes:
  assumes "\<And>z. z \<in> set zs \<Longrightarrow> (A z = None \<and> B z = S z) \<or> (B z = None \<and> A z = S z)"
  shows "fold (\<lambda>z. bump (B z)) zs (fold (\<lambda>z. bump (A z)) zs counters)
           = fold (\<lambda>z. bump (S z)) zs counters"
  using assms
proof (induction zs arbitrary: counters)
  case Nil
  show ?case by simp
next
  case (Cons z zs)
  have one: "bump (B z) (bump (A z) counters) = bump (S z) counters"
    using Cons.prems [of z] by auto
  have "fold (\<lambda>z. bump (B z)) (z # zs) (fold (\<lambda>z. bump (A z)) (z # zs) counters)
        = fold (\<lambda>z. bump (B z)) zs (bump (B z) (fold (\<lambda>z. bump (A z)) zs (bump (A z) counters)))"
    by simp
  also have "\<dots> = fold (\<lambda>z. bump (B z)) zs
                      (fold (\<lambda>z. bump (A z)) zs (bump (B z) (bump (A z) counters)))"
    by (simp add: bump_fold_commute)
  also have "\<dots> = fold (\<lambda>z. bump (S z)) zs (bump (B z) (bump (A z) counters))"
    using Cons.prems by (intro Cons.IH) simp
  finally show ?case
    by (simp add: one)
qed

lemma par_flags_quiet:
  "quiet env fs \<Longrightarrow> par_flags env pipeline fs False = replicate (length fs) False"
  by (induction fs) (simp_all add: quiet_Cons)

lemma zip_replicate_False: "zip fs (replicate (length fs) b) = map (\<lambda>f. (f, b)) fs"
  by (induction fs) simp_all

lemma run_pipeline_sequential_quiet:
  assumes "\<not> parallel cfg" "quiet env files"
  shows "stats (run_pipeline env pipeline cfg counters files False)
           = fold (\<lambda>g. bump (Some (seq_category env pipeline g))) files counters"
    and "trace (run_pipeline env pipeline cfg counters files False)
           = concat (map (seq_events env pipeline) files)"
    and "config (run_pipeline env pipeline cfg counters files False) = cfg"
  using assms seq_quiet_run [of "\<lparr>stats = counters, config = cfg, pids = [None],
      sigintReceived = False, trace = []\<rparr>" env files pipeline 0]
  by (simp_all add: run_pipeline_def Let_def)

lemma run_pipeline_parallel:
  assumes "parallel cfg"
  shows "stats (run_pipeline env pipeline cfg counters files flag)
           = fold (\<lambda>z. bump (par_reap_category env pipeline z))
               (zip files (par_flags env pipeline files flag))
               (fold (\<lambda>z. bump (par_exec_category env pipeline z))
                  (zip files (par_flags env pipeline files flag)) counters)"
    and "trace (run_pipeline env pipeline cfg counters files flag)
           = concat (map (par_exec_events env pipeline)
               (zip files (par_flags env pipeline files flag))) @
             concat (map (par_reap_events env pipeline)
               (zip files (par_flags env pipeline files flag)))"
    and "config (run_pipeline env pipeline cfg counters files flag) = cfg"
proof -
  let ?s0 = "\<lparr>stats = counters, config = cfg, pids = replicate (length files) None,
      sigintReceived = flag, trace = []\<rparr>"
  let ?s1 = "run_pipeline_exec env pipeline files 0 ?s0"
  let ?zs = "zip files (par_flags env pipeline files flag)"
  have run: "run_pipeline env pipeline cfg counters files flag
               = run_pipeline_reap env pipeline (pids ?s1) ?s1"
    using assms by (simp add: run_pipeline_def Let_def)
  have exec: "stats ?s1 = fold (\<lambda>z. bump (par_exec_category env pipeline z)) ?zs counters"
    "trace ?s1 = concat (map (par_exec_events env pipeline) ?zs)"
    "pids ?s1 = map (par_slot env pipeline) ?zs"
    "config ?s1 = cfg"
    using assms par_exec_run [of ?s0 "[]" files 0 env pipeline] by simp_all
  show "stats (run_pipeline env pipeline cfg counters files flag)
           = fold (\<lambda>z. bump (par_reap_category env pipeline z)) ?zs
               (fold (\<lambda>z. bump (par_exec_category env pipeline z)) ?zs counters)"
    and "trace (run_pipeline env pipeline cfg counters files flag)
           = concat (map (par_exec_events env pipeline) ?zs) @
             concat (map (par_reap_events env pipeline) ?zs)"
    and "config (run_pipeline env pipeline cfg counters files flag) = cfg"
    using par_reap_run [of env pipeline ?zs ?s1]
    by (simp_all add: run exec)
qed

subsection \<open>Sequential and parallel mode count alike\<close>

text \<open>
  C6. For every file list and every pipeline, when no interrupt arrives during the run
  (the flag is clear on entry and SIGINT arrives neither while a file is validated nor
  while it is run), the five counters that \<open>run_pipeline\<close> leaves are the same in
  sequential and in parallel mode. The results of \<open>open\<close> and the termination statuses
  of the children are the same functions of the file and the stage in both modes.
\<close>

theorem sequential_parallel_same_tally:
  assumes "quiet env files"
  shows "stats (run_pipeline env pipeline (cfg\<lparr>parallel := False\<rparr>) counters files False)
           = stats (run_pipeline env pipeline (cfg\<lparr>parallel := True\<rparr>) counters files False)"
proof -
  let ?zs = "map (\<lambda>f. (f, False)) files"
  have seq: "stats (run_pipeline env pipeline (cfg\<lparr>parallel := False\<rparr>) counters files False)
               = fold (\<lambda>z. bump (Some (seq_category env pipeline (fst z)))) ?zs counters"
    using assms by (simp add: run_pipeline_sequential_quiet fold_map comp_def)
  have par: "stats (run_pipeline env pipeline (cfg\<lparr>parallel := True\<rparr>) counters files False)
               = fold (\<lambda>z. bump (par_reap_category env pipeline z)) ?zs
                   (fold (\<lambda>z. bump (par_exec_category env pipeline z)) ?zs counters)"
    using assms by (simp add: run_pipeline_parallel par_flags_quiet zip_replicate_False)
  have "fold (\<lambda>z. bump (par_reap_category env pipeline z)) ?zs
          (fold (\<lambda>z. bump (par_exec_category env pipeline z)) ?zs counters)
        = fold (\<lambda>z. bump (Some (seq_category env pipeline (fst z)))) ?zs counters"
    by (rule fold_bump_two_passes)
       (auto simp: par_exec_category_def par_reap_category_def par_spawned_def seq_category_def)
  then show ?thesis
    by (simp only: seq par)
qed

theorem sequential_parallel_same_tally_witness:
  "quiet example_env example_files \<and>
   stats (run_pipeline example_env example_pipeline (example_cfg\<lparr>parallel := False\<rparr>)
            [0, 0, 0, 0, 0] example_files False) = [1, 0, 1, 1, 3] \<and>
   stats (run_pipeline example_env example_pipeline (example_cfg\<lparr>parallel := True\<rparr>)
            [0, 0, 0, 0, 0] example_files False) = [1, 0, 1, 1, 3]"
proof -
  have q: "quiet example_env example_files"
    by (simp add: quiet_def example_env_def)
  have par: "stats (run_pipeline example_env example_pipeline (example_cfg\<lparr>parallel := True\<rparr>)
            [0, 0, 0, 0, 0] example_files False) = [1, 0, 1, 1, 3]"
    by code_simp
  show ?thesis
    using q par sequential_parallel_same_tally [OF q, of example_pipeline example_cfg "[0, 0, 0, 0, 0]"]
    by simp
qed

subsection \<open>Redirection validation refines its specification\<close>

lemma try_open_file_cases:
  "try_open_file env path fileName rd =
     (let p = handle_placeholders path fileName;
          mode = (if rd then O_RDONLY else O_WRONLY_CREAT_TRUNC);
          fd = os_open env p mode
      in if fd < 0 then (- 1, [Open p mode fd, Stderr (diagnostic_spec mode p fileName)])
         else (fd, [Open p mode fd]))"
  by (simp add: try_open_file_def diagnostic_spec_def Let_def)

lemma validate_files_refines:
  "validate_files env inputFile outputFile fileName
     = validate_spec env (specified_paths inputFile outputFile fileName) fileName"
  by (cases inputFile; cases outputFile)
     (auto simp: validate_files_def specified_paths_def try_open_file_cases Let_def)




subsection \<open>The processes of one file\<close>

lemma process_events_of_append [simp]:
  "process_events_of f (xs @ ys) = process_events_of f xs @ process_events_of f ys"
  by (simp add: process_events_of_def)

lemma process_events_of_Nil [simp]: "process_events_of f [] = []"
  by (simp add: process_events_of_def)

lemma process_events_of_concat:
  "process_events_of f (concat xss) = concat (map (process_events_of f) xss)"
  by (induction xss) simp_all

lemma process_events_of_validate_spec:
  "process_events_of f (snd (validate_spec env paths g)) = []"
  by (induction paths) (auto simp: process_events_of_def Let_def split: prod.splits)

lemma process_events_of_validate [simp]:
  "process_events_of f (validate_events env pipeline g) = []"
  by (simp add: validate_events_def validate_files_refines process_events_of_validate_spec)

lemma process_events_of_fork [simp]:
  "process_events_of f (fork_events pipeline g) = (if g = f then fork_events pipeline g else [])"
  by (auto simp: process_events_of_def fork_events_def filter_map comp_def)

lemma process_events_of_wait [simp]:
  "process_events_of f (wait_events pipeline g) = (if g = f then wait_events pipeline g else [])"
  by (auto simp: process_events_of_def wait_events_def filter_map comp_def)

lemma concat_map_none:
  "(\<And>x. x \<in> set xs \<Longrightarrow> P x = []) \<Longrightarrow> concat (map P xs) = []"
  by (induction xs) simp_all

lemma concat_map_pick:
  assumes "distinct (map key xs)" "x \<in> set xs"
    "\<And>y. y \<in> set xs \<Longrightarrow> key y \<noteq> key x \<Longrightarrow> P y = []"
  shows "concat (map P xs) = P x"
  using assms
proof (induction xs)
  case Nil
  then show ?case by simp
next
  case (Cons y ys)
  show ?case
  proof (cases "y = x")
    case True
    have "concat (map P ys) = []"
    proof (rule concat_map_none)
      fix z assume z: "z \<in> set ys"
      then have "key z \<noteq> key x"
        using Cons.prems(1) True by (metis distinct.simps(2) image_eqI list.simps(9) set_map)
      then show "P z = []"
        using Cons.prems(3) z by simp
    qed
    then show ?thesis using True by simp
  next
    case False
    then have "x \<in> set ys" using Cons.prems(2) by simp
    moreover have "key y \<noteq> key x"
      using Cons.prems(1) \<open>x \<in> set ys\<close> by auto
    then have "P y = []" using Cons.prems(3) by simp
    ultimately show ?thesis
      using Cons.IH Cons.prems by simp
  qed
qed

lemma in_zip_par_flags:
  "f \<in> set fs \<Longrightarrow> \<exists>fl. (f, fl) \<in> set (zip fs (par_flags env pipeline fs flag))"
proof (induction fs arbitrary: flag)
  case Nil
  then show ?case by simp
next
  case (Cons g gs)
  show ?case
  proof (cases "g = f")
    case True
    then have "(f, flag \<or> sigint_in_validate env f)
                 \<in> set (zip (g # gs) (par_flags env pipeline (g # gs) flag))"
      by simp
    then show ?thesis by blast
  next
    case False
    then have "f \<in> set gs" using Cons.prems by simp
    from Cons.IH [OF this] obtain fl where
      "(f, fl) \<in> set (zip gs (par_flags env pipeline gs
          (flag \<or> sigint_in_validate env g \<or>
           (redirection_valid env pipeline g \<and> sigint_in_process env g))))"
      by blast
    then have "(f, fl) \<in> set (zip (g # gs) (par_flags env pipeline (g # gs) flag))"
      by simp
    then show ?thesis by blast
  qed
qed

lemma map_fst_zip_par_flags:
  "map fst (zip fs (par_flags env pipeline fs flag)) = fs"
  by (simp add: map_fst_zip)

lemma validated_file_process_events:
  assumes "distinct files" "f \<in> set files" "redirection_valid env pipeline f"
    "parallel cfg \<or> (\<not> flag \<and> quiet env files)"
  shows "process_events_of f (trace (run_pipeline env pipeline cfg counters files flag))
           = fork_events pipeline f @ wait_events pipeline f"
proof (cases "parallel cfg")
  case True
  let ?zs = "zip files (par_flags env pipeline files flag)"
  obtain fl where z: "(f, fl) \<in> set ?zs"
    using in_zip_par_flags [OF assms(2)] by blast
  have d: "distinct (map fst ?zs)"
    using assms(1) by (simp add: map_fst_zip_par_flags)
  have sp: "par_spawned env pipeline (f, fl)"
    using assms(3) by (simp add: par_spawned_def)
  have "concat (map (\<lambda>z. process_events_of f (par_exec_events env pipeline z)) ?zs)
          = process_events_of f (par_exec_events env pipeline (f, fl))"
    using d z by (rule concat_map_pick) (auto simp: par_exec_events_def)
  moreover have "concat (map (\<lambda>z. process_events_of f (par_reap_events env pipeline z)) ?zs)
          = process_events_of f (par_reap_events env pipeline (f, fl))"
    using d z by (rule concat_map_pick) (auto simp: par_reap_events_def)
  ultimately show ?thesis
    using True sp
    by (simp add: run_pipeline_parallel process_events_of_concat comp_def
        par_exec_events_def par_reap_events_def)
next
  case False
  then have q: "\<not> flag" "quiet env files"
    using assms(4) by simp_all
  have "concat (map (\<lambda>g. process_events_of f (seq_events env pipeline g)) files)
          = process_events_of f (seq_events env pipeline f)"
    using assms(1,2) by (intro concat_map_pick [where key = "\<lambda>g. g"]) (auto simp: seq_events_def)
  then show ?thesis
    using False q assms(3)
    by (simp add: run_pipeline_sequential_quiet process_events_of_concat comp_def
        seq_events_def)
qed

lemma seq_process_events:
  assumes "\<not> parallel (config s)" "distinct fs"
  shows "process_events_of f (trace (run_pipeline_exec env pipeline fs i s))
           = process_events_of f (trace s) \<or>
         (f \<in> set fs \<and>
          process_events_of f (trace (run_pipeline_exec env pipeline fs i s))
            = process_events_of f (trace s) @ fork_events pipeline f @ wait_events pipeline f)"
  using assms
proof (induction fs arbitrary: i s)
  case Nil
  then show ?case by simp
next
  case (Cons g rest)
  let ?fl = "sigintReceived s \<or> sigint_in_validate env g"
  from Cons.prems(2) have d: "distinct rest" "g \<notin> set rest"
    by simp_all
  consider
      (notexec) "\<not> redirection_valid env pipeline g" "\<not> ?fl"
    | (skipped) "?fl"
    | (run) "redirection_valid env pipeline g" "\<not> ?fl"
    by blast
  then show ?case
  proof cases
    case notexec
    let ?s' = "s\<lparr>trace := trace s @ validate_events env pipeline g,
                 stats := bump (Some NOTEXEC) (stats s)\<rparr>"
    have step: "run_pipeline_exec env pipeline (g # rest) i s
                  = run_pipeline_exec env pipeline rest (Suc i) ?s'"
      using notexec by (intro exec_step_notexec) simp_all
    have "\<not> parallel (config ?s')"
      using Cons.prems(1) by simp
    from Cons.IH [OF this d(1), of "Suc i"] show ?thesis
      by (auto simp: step simp del: bump.simps)
  next
    case skipped
    let ?s' = "deliver (sigint_in_validate env g)
                 (s\<lparr>trace := trace s @ validate_events env pipeline g\<rparr>)"
    have step: "run_pipeline_exec env pipeline (g # rest) i s
                  = run_pipeline_exec env pipeline rest (Suc i) ?s'"
      using skipped Cons.prems(1) by (intro exec_step_skipped) auto
    have "\<not> parallel (config ?s')"
      using Cons.prems(1) by simp
    from Cons.IH [OF this d(1), of "Suc i"] show ?thesis
      by (auto simp: step)
  next
    case run
    let ?s2 = "deliver (sigint_in_process env g)
                 (sequential_process env pipeline g
                    (s\<lparr>trace := trace s @ validate_events env pipeline g\<rparr>))"
    have step: "run_pipeline_exec env pipeline (g # rest) i s
                  = (if sigintReceived ?s2 \<and> rest \<noteq> []
                     then ?s2\<lparr>config := (config ?s2)\<lparr>sigInt := True\<rparr>\<rparr>
                     else run_pipeline_exec env pipeline rest (Suc i) ?s2)"
    proof -
      from run(2) have "\<not> sigintReceived s" "\<not> sigint_in_validate env g"
        by simp_all
      from exec_step_sequential [OF run(1) Cons.prems(1) this, of rest i] show ?thesis
        by (simp only: Let_def)
    qed
    have tr: "process_events_of f (trace ?s2)
                = process_events_of f (trace s) @
                  (if g = f then fork_events pipeline f @ wait_events pipeline f else [])"
      by simp
    show ?thesis
    proof (cases "sigintReceived ?s2 \<and> rest \<noteq> []")
      case True
      then show ?thesis
        using tr by (simp add: step del: deliver_fields sequential_process_fields)
    next
      case False
      have seq: "\<not> parallel (config ?s2)"
        using Cons.prems(1) by simp
      have rest: "run_pipeline_exec env pipeline (g # rest) i s
                    = run_pipeline_exec env pipeline rest (Suc i) ?s2"
        using False by (simp only: step if_False)
      show ?thesis
      proof (cases "g = f")
        case True
        then have "f \<notin> set rest" using d(2) by simp
        with Cons.IH [OF seq d(1), of "Suc i"]
        have "process_events_of f (trace (run_pipeline_exec env pipeline rest (Suc i) ?s2))
                = process_events_of f (trace ?s2)"
          by blast
        then show ?thesis
          unfolding rest using True tr by simp
      next
        case False
        then have "process_events_of f (trace ?s2) = process_events_of f (trace s)"
          using tr by simp
        with Cons.IH [OF seq d(1), of "Suc i"] show ?thesis
          unfolding rest by auto
      qed
    qed
  qed
qed

lemma par_process_events:
  assumes "parallel cfg" "distinct files"
  shows "process_events_of f (trace (run_pipeline env pipeline cfg counters files flag)) = [] \<or>
         process_events_of f (trace (run_pipeline env pipeline cfg counters files flag))
           = fork_events pipeline f @ wait_events pipeline f"
proof (cases "f \<in> set files")
  case True
  let ?zs = "zip files (par_flags env pipeline files flag)"
  obtain fl where z: "(f, fl) \<in> set ?zs"
    using in_zip_par_flags [OF True] by blast
  have d: "distinct (map fst ?zs)"
    using assms(2) by (simp add: map_fst_zip_par_flags)
  have "concat (map (\<lambda>z. process_events_of f (par_exec_events env pipeline z)) ?zs)
          = process_events_of f (par_exec_events env pipeline (f, fl))"
    using d z by (rule concat_map_pick) (auto simp: par_exec_events_def)
  moreover have "concat (map (\<lambda>z. process_events_of f (par_reap_events env pipeline z)) ?zs)
          = process_events_of f (par_reap_events env pipeline (f, fl))"
    using d z by (rule concat_map_pick) (auto simp: par_reap_events_def)
  ultimately show ?thesis
    using assms(1)
    by (simp add: run_pipeline_parallel process_events_of_concat comp_def
        par_exec_events_def par_reap_events_def)
next
  case False
  let ?zs = "zip files (par_flags env pipeline files flag)"
  have other: "fst z \<noteq> f" if "z \<in> set ?zs" for z
  proof -
    from that have "(fst z, snd z) \<in> set ?zs" by simp
    then have "fst z \<in> set files" by (rule set_zip_leftD)
    then show ?thesis using False by auto
  qed
  have "concat (map (\<lambda>z. process_events_of f (par_exec_events env pipeline z)) ?zs) = []"
    by (rule concat_map_none) (auto simp: par_exec_events_def dest: other)
  moreover have "concat (map (\<lambda>z. process_events_of f (par_reap_events env pipeline z)) ?zs) = []"
    by (rule concat_map_none) (auto simp: par_reap_events_def dest: other)
  ultimately show ?thesis
    using assms(1)
    by (simp add: run_pipeline_parallel process_events_of_concat comp_def)
qed

lemma run_process_events:
  assumes "distinct files"
  shows "process_events_of f (trace (run_pipeline env pipeline cfg counters files flag)) = [] \<or>
         process_events_of f (trace (run_pipeline env pipeline cfg counters files flag))
           = fork_events pipeline f @ wait_events pipeline f"
proof (cases "parallel cfg")
  case True
  then show ?thesis using assms by (rule par_process_events)
next
  case False
  let ?s0 = "\<lparr>stats = counters, config = cfg, pids = [None], sigintReceived = flag, trace = []\<rparr>"
  have "\<not> parallel (config ?s0)" using False by simp
  from seq_process_events [OF this assms, of f env pipeline 0] show ?thesis
    using False by (auto simp: run_pipeline_def)
qed

text \<open>
  C7. For every pipeline of \<open>k\<close> stages and every file of a duplicate-free file list, in
  either mode and whenever SIGINT arrives, the \<open>fork\<close> and \<open>waitpid\<close> calls that a run
  makes for the file are either none (its pipeline is not run) or exactly \<open>k\<close> \<open>fork\<close>
  calls, one per stage in stage order, followed by exactly \<open>k\<close> \<open>waitpid\<close> calls on these
  children, again in stage order. A file whose redirections validate is run in this way
  in parallel mode, and in sequential mode when no interrupt arrives.
\<close>

theorem pipeline_spawned_and_reaped_in_stage_order:
  assumes "distinct files"
  shows "(process_events_of f (trace (run_pipeline env pipeline cfg counters files flag)) = [] \<or>
          process_events_of f (trace (run_pipeline env pipeline cfg counters files flag))
            = map (\<lambda>i. Fork (Pid f i) (cmd_copy (cmdArray pipeline ! i) f)) [0..<numCmds pipeline] @
              map (\<lambda>i. Waitpid (Pid f i)) [0..<numCmds pipeline]) \<and>
         (f \<in> set files \<and> redirection_valid env pipeline f \<and>
          (parallel cfg \<or> (\<not> flag \<and> quiet env files)) \<longrightarrow>
            process_events_of f (trace (run_pipeline env pipeline cfg counters files flag))
              = map (\<lambda>i. Fork (Pid f i) (cmd_copy (cmdArray pipeline ! i) f)) [0..<numCmds pipeline] @
                map (\<lambda>i. Waitpid (Pid f i)) [0..<numCmds pipeline])"
proof (intro conjI impI)
  show "process_events_of f (trace (run_pipeline env pipeline cfg counters files flag)) = [] \<or>
          process_events_of f (trace (run_pipeline env pipeline cfg counters files flag))
            = map (\<lambda>i. Fork (Pid f i) (cmd_copy (cmdArray pipeline ! i) f)) [0..<numCmds pipeline] @
              map (\<lambda>i. Waitpid (Pid f i)) [0..<numCmds pipeline]"
    using run_process_events [OF assms, of f env pipeline cfg counters flag]
    by (simp add: fork_events_def wait_events_def)
next
  assume h: "f \<in> set files \<and> redirection_valid env pipeline f \<and>
          (parallel cfg \<or> (\<not> flag \<and> quiet env files))"
  then have "process_events_of f (trace (run_pipeline env pipeline cfg counters files flag))
               = fork_events pipeline f @ wait_events pipeline f"
    using assms by (intro validated_file_process_events) simp_all
  then show "process_events_of f (trace (run_pipeline env pipeline cfg counters files flag))
              = map (\<lambda>i. Fork (Pid f i) (cmd_copy (cmdArray pipeline ! i) f)) [0..<numCmds pipeline] @
                map (\<lambda>i. Waitpid (Pid f i)) [0..<numCmds pipeline]"
    by (simp add: fork_events_def wait_events_def)
qed

theorem pipeline_spawned_and_reaped_in_stage_order_witness:
  "distinct example_files \<and> ''c'' \<in> set example_files \<and>
   redirection_valid example_env example_pipeline ''c'' \<and> quiet example_env example_files \<and>
   numCmds example_pipeline = 2 \<and>
   process_events_of ''c''
     (trace (run_pipeline example_env example_pipeline example_cfg [0, 0, 0, 0, 0] example_files False))
     = [Fork (Pid ''c'' 0) [''cat''], Fork (Pid ''c'' 1) [''wc'', ''-l'', ''c''],
        Waitpid (Pid ''c'' 0), Waitpid (Pid ''c'' 1)] \<and>
   process_events_of ''c''
     (trace (run_pipeline example_env example_pipeline (example_cfg\<lparr>parallel := True\<rparr>)
        [0, 0, 0, 0, 0] example_files True))
     = [Fork (Pid ''c'' 0) [''cat''], Fork (Pid ''c'' 1) [''wc'', ''-l'', ''c''],
        Waitpid (Pid ''c'' 0), Waitpid (Pid ''c'' 1)]"
proof -
  have d: "distinct example_files" and m: "''c'' \<in> set example_files"
    by (simp_all add: example_files_def)
  have v: "redirection_valid example_env example_pipeline ''c''"
    by code_simp
  have q: "quiet example_env example_files"
    by (simp add: quiet_def example_env_def)
  have n: "numCmds example_pipeline = 2"
    by (simp add: numCmds_def example_pipeline_def)
  have args: "map (\<lambda>i. Fork (Pid ''c'' i) (cmd_copy (cmdArray example_pipeline ! i) ''c'')) [0..<2]
      = [Fork (Pid ''c'' 0) [''cat''], Fork (Pid ''c'' 1) [''wc'', ''-l'', ''c'']]"
    by code_simp
  have w: "map (\<lambda>i. Waitpid (Pid ''c'' i)) [0..<2] = [Waitpid (Pid ''c'' 0), Waitpid (Pid ''c'' 1)]"
    by code_simp
  show ?thesis
    using d m v q n
      pipeline_spawned_and_reaped_in_stage_order [OF d, of "''c''" example_env example_pipeline
        example_cfg "[0, 0, 0, 0, 0]" False]
      pipeline_spawned_and_reaped_in_stage_order [OF d, of "''c''" example_env example_pipeline
        "example_cfg\<lparr>parallel := True\<rparr>" "[0, 0, 0, 0, 0]" True]
    by (simp add: args w)
qed

subsection \<open>Interrupt in sequential mode\<close>

lemma seq_category_bound: "seq_category env pipeline g < 4"
  using outcome_spec_category [of "statuses_of env pipeline g"]
  by (auto simp: seq_category_def Values_defs)

lemma bump_category_total:
  assumes "c < 4"
  shows "bump (Some c) [0, 0, 0, 0, 0] ! TOTAL_STATS = 1 \<and>
         bump (Some c) [0, 0, 0, 0, 0] ! SUCCESS + bump (Some c) [0, 0, 0, 0, 0] ! FAIL +
         bump (Some c) [0, 0, 0, 0, 0] ! SIGNAL + bump (Some c) [0, 0, 0, 0, 0] ! NOTEXEC = 1"
proof -
  from assms consider "c = 0" | "c = 1" | "c = 2" | "c = 3"
    by linarith
  then show ?thesis
    by cases (simp_all add: incr_def Values_defs)
qed

lemma seq_break_after:
  assumes "\<not> parallel cfg" "quiet env pre" "\<not> sigint_in_validate env f"
    "redirection_valid env pipeline f" "sigint_in_process env f" "rest \<noteq> []"
  shows "stats (run_pipeline env pipeline cfg counters (pre @ f # rest) False)
           = stats (run_pipeline env pipeline cfg counters (pre @ [f]) False) \<and>
         trace (run_pipeline env pipeline cfg counters (pre @ f # rest) False)
           = trace (run_pipeline env pipeline cfg counters (pre @ [f]) False) \<and>
         sigInt (config (run_pipeline env pipeline cfg counters (pre @ f # rest) False))"
proof -
  let ?s0 = "\<lparr>stats = counters, config = cfg, pids = [None], sigintReceived = False, trace = []\<rparr>"
  let ?s1 = "run_pipeline_exec env pipeline pre 0 ?s0"
  let ?s2 = "deliver (sigint_in_process env f)
               (sequential_process env pipeline f
                  (?s1\<lparr>trace := trace ?s1 @ validate_events env pipeline f\<rparr>))"
  have s0: "\<not> parallel (config ?s0)" "\<not> sigintReceived ?s0"
    using assms(1) by simp_all
  have s1: "\<not> parallel (config ?s1)" "\<not> sigintReceived ?s1"
    using seq_quiet_run [OF s0 assms(2), of pipeline 0] assms(1) by simp_all
  have split: "run_pipeline_exec env pipeline (pre @ more) 0 ?s0
                 = run_pipeline_exec env pipeline more (length pre) ?s1" for more
    using seq_quiet_append [OF s0 assms(2), of pipeline more 0] by simp
  have step: "run_pipeline_exec env pipeline (f # more) (length pre) ?s1
                = (if sigintReceived ?s2 \<and> more \<noteq> [] then ?s2\<lparr>config := (config ?s2)\<lparr>sigInt := True\<rparr>\<rparr>
                   else run_pipeline_exec env pipeline more (Suc (length pre)) ?s2)" for more
    using exec_step_sequential [OF assms(4) s1 assms(3), of more "length pre"]
    by (simp only: Let_def)
  have flag: "sigintReceived ?s2"
    using assms(5) by simp
  have long: "run_pipeline env pipeline cfg counters (pre @ f # rest) False
                = ?s2\<lparr>config := (config ?s2)\<lparr>sigInt := True\<rparr>\<rparr>"
    using assms(1,6) flag by (simp add: run_pipeline_def split step del: deliver_fields)
  have short: "run_pipeline env pipeline cfg counters (pre @ [f]) False = ?s2"
    using assms(1) by (simp add: run_pipeline_def split step del: deliver_fields)
  show ?thesis
    by (simp add: long short)
qed

lemma seq_three_files:
  assumes "\<not> parallel cfg" "a \<noteq> b" "a \<noteq> c" "\<not> sigint_in_validate env a"
    "(redirection_valid env pipeline a \<and> sigint_in_process env a) \<or> sigint_in_validate env b"
  shows "stats (run_pipeline env pipeline cfg [0, 0, 0, 0, 0] [a, b, c] False)
           = bump (Some (seq_category env pipeline a)) [0, 0, 0, 0, 0] \<and>
         process_events_of b (trace (run_pipeline env pipeline cfg [0, 0, 0, 0, 0] [a, b, c] False)) = [] \<and>
         process_events_of c (trace (run_pipeline env pipeline cfg [0, 0, 0, 0, 0] [a, b, c] False)) = []"
proof -
  let ?s0 = "\<lparr>stats = [0, 0, 0, 0, 0], config = cfg, pids = [None], sigintReceived = False,
               trace = []\<rparr>"
  have run: "run_pipeline env pipeline cfg [0, 0, 0, 0, 0] [a, b, c] False
               = run_pipeline_exec env pipeline [a, b, c] 0 ?s0"
    using assms(1) by (simp add: run_pipeline_def)
  have s0: "\<not> parallel (config ?s0)" "\<not> sigintReceived ?s0"
    using assms(1) by simp_all
  show ?thesis
  proof (cases "redirection_valid env pipeline a \<and> sigint_in_process env a")
    case True
    then show ?thesis
      using assms(1-4) s0
      by (simp add: run exec_step_sequential Let_def seq_category_def)
  next
    case False
    then have b: "sigint_in_validate env b"
      using assms(5) by blast
    show ?thesis
    proof (cases "redirection_valid env pipeline a")
      case True
      then have "\<not> sigint_in_process env a" using False by simp
      then show ?thesis
        using assms(1-4) s0 True b
        by (simp add: run exec_step_sequential exec_step_skipped Let_def seq_category_def)
    next
      case False
      then show ?thesis
        using assms(1-4) s0 b
        by (simp add: run exec_step_notexec exec_step_skipped Let_def seq_category_def)
    qed
  qed
qed

text \<open>
  C4. In sequential mode, when the flag is found set at the poll after a file's pipeline
  has been run and reaped (the interrupt arrived while that file was processed, none
  before) and files remain, the run ends there: its counters and its whole trace are
  those of the run over the files up to that one, so nothing is validated, spawned or
  counted for the remaining files, and the interrupt is recorded in \<open>sigInt\<close>. In
  particular, for three distinct files and an interrupt that arrives after the first file
  is completed (while its pipeline is still being processed, so that the poll sees it, or
  after the poll, while the second file is validated), exactly one file is counted, the
  total is 1, and no process is spawned for the second and the third file.
\<close>

theorem interrupt_abandons_remaining_files:
  "(\<not> parallel cfg \<and> quiet env pre \<and> \<not> sigint_in_validate env f \<and>
    redirection_valid env pipeline f \<and> sigint_in_process env f \<and> rest \<noteq> [] \<longrightarrow>
      stats (run_pipeline env pipeline cfg counters (pre @ f # rest) False)
        = stats (run_pipeline env pipeline cfg counters (pre @ [f]) False) \<and>
      trace (run_pipeline env pipeline cfg counters (pre @ f # rest) False)
        = trace (run_pipeline env pipeline cfg counters (pre @ [f]) False) \<and>
      sigInt (config (run_pipeline env pipeline cfg counters (pre @ f # rest) False))) \<and>
   (\<not> parallel cfg \<and> a \<noteq> b \<and> a \<noteq> c \<and> \<not> sigint_in_validate env a \<and>
    ((redirection_valid env pipeline a \<and> sigint_in_process env a) \<or> sigint_in_validate env b) \<longrightarrow>
      stats (run_pipeline env pipeline cfg [0, 0, 0, 0, 0] [a, b, c] False) ! TOTAL_STATS = 1 \<and>
      stats (run_pipeline env pipeline cfg [0, 0, 0, 0, 0] [a, b, c] False) ! SUCCESS +
      stats (run_pipeline env pipeline cfg [0, 0, 0, 0, 0] [a, b, c] False) ! FAIL +
      stats (run_pipeline env pipeline cfg [0, 0, 0, 0, 0] [a, b, c] False) ! SIGNAL +
      stats (run_pipeline env pipeline cfg [0, 0, 0, 0, 0] [a, b, c] False) ! NOTEXEC = 1 \<and>
      process_events_of b (trace (run_pipeline env pipeline cfg [0, 0, 0, 0, 0] [a, b, c] False)) = [] \<and>
      process_events_of c (trace (run_pipeline env pipeline cfg [0, 0, 0, 0, 0] [a, b, c] False)) = [])"
proof (intro conjI impI)
  assume h: "\<not> parallel cfg \<and> quiet env pre \<and> \<not> sigint_in_validate env f \<and>
    redirection_valid env pipeline f \<and> sigint_in_process env f \<and> rest \<noteq> []"
  then have br: "stats (run_pipeline env pipeline cfg counters (pre @ f # rest) False)
           = stats (run_pipeline env pipeline cfg counters (pre @ [f]) False) \<and>
         trace (run_pipeline env pipeline cfg counters (pre @ f # rest) False)
           = trace (run_pipeline env pipeline cfg counters (pre @ [f]) False) \<and>
         sigInt (config (run_pipeline env pipeline cfg counters (pre @ f # rest) False))"
    by (intro seq_break_after) simp_all
  from br show "stats (run_pipeline env pipeline cfg counters (pre @ f # rest) False)
           = stats (run_pipeline env pipeline cfg counters (pre @ [f]) False)" by simp
  from br show "trace (run_pipeline env pipeline cfg counters (pre @ f # rest) False)
           = trace (run_pipeline env pipeline cfg counters (pre @ [f]) False)" by simp
  from br show "sigInt (config (run_pipeline env pipeline cfg counters (pre @ f # rest) False))"
    by simp
next
  assume h: "\<not> parallel cfg \<and> a \<noteq> b \<and> a \<noteq> c \<and> \<not> sigint_in_validate env a \<and>
    ((redirection_valid env pipeline a \<and> sigint_in_process env a) \<or> sigint_in_validate env b)"
  then have three: "stats (run_pipeline env pipeline cfg [0, 0, 0, 0, 0] [a, b, c] False)
           = bump (Some (seq_category env pipeline a)) [0, 0, 0, 0, 0] \<and>
         process_events_of b (trace (run_pipeline env pipeline cfg [0, 0, 0, 0, 0] [a, b, c] False)) = [] \<and>
         process_events_of c (trace (run_pipeline env pipeline cfg [0, 0, 0, 0, 0] [a, b, c] False)) = []"
    by (intro seq_three_files) simp_all
  note tally = bump_category_total [OF seq_category_bound, of env pipeline a]
  from three tally
  show "stats (run_pipeline env pipeline cfg [0, 0, 0, 0, 0] [a, b, c] False) ! TOTAL_STATS = 1"
    by (simp del: bump.simps)
  from three tally
  show "stats (run_pipeline env pipeline cfg [0, 0, 0, 0, 0] [a, b, c] False) ! SUCCESS +
      stats (run_pipeline env pipeline cfg [0, 0, 0, 0, 0] [a, b, c] False) ! FAIL +
      stats (run_pipeline env pipeline cfg [0, 0, 0, 0, 0] [a, b, c] False) ! SIGNAL +
      stats (run_pipeline env pipeline cfg [0, 0, 0, 0, 0] [a, b, c] False) ! NOTEXEC = 1"
    by (simp del: bump.simps)
  from three
  show "process_events_of b (trace (run_pipeline env pipeline cfg [0, 0, 0, 0, 0] [a, b, c] False)) = []"
    by simp
  from three
  show "process_events_of c (trace (run_pipeline env pipeline cfg [0, 0, 0, 0, 0] [a, b, c] False)) = []"
    by simp
qed

theorem interrupt_abandons_remaining_files_witness:
  "\<not> parallel example_cfg \<and> quiet example_env_interrupt [''b''] \<and>
   \<not> sigint_in_validate example_env_interrupt ''a'' \<and>
   redirection_valid example_env_interrupt example_pipeline ''a'' \<and>
   sigint_in_process example_env_interrupt ''a'' \<and>
   stats (run_pipeline example_env_interrupt example_pipeline example_cfg [0, 0, 0, 0, 0]
            [''b'', ''a'', ''c''] False) = [1, 0, 0, 1, 2] \<and>
   stats (run_pipeline example_env_interrupt example_pipeline example_cfg [0, 0, 0, 0, 0]
            [''b'', ''a''] False) = [1, 0, 0, 1, 2] \<and>
   sigInt (config (run_pipeline example_env_interrupt example_pipeline example_cfg [0, 0, 0, 0, 0]
            [''b'', ''a'', ''c''] False)) \<and>
   stats (run_pipeline example_env_interrupt example_pipeline example_cfg [0, 0, 0, 0, 0]
            [''a'', ''b'', ''c''] False) = [1, 0, 0, 0, 1] \<and>
   trace (run_pipeline example_env_interrupt example_pipeline example_cfg [0, 0, 0, 0, 0]
            [''a'', ''b'', ''c''] False)
     = [Open ''a.in'' O_RDONLY 3, Close 3, Fork (Pid ''a'' 0) [''cat''],
        Fork (Pid ''a'' 1) [''wc'', ''-l'', ''a''], Waitpid (Pid ''a'' 0), Waitpid (Pid ''a'' 1)]"
proof -
  have h: "\<not> parallel example_cfg" "quiet example_env_interrupt [''b'']"
    "\<not> sigint_in_validate example_env_interrupt ''a''"
    "sigint_in_process example_env_interrupt ''a''"
    by (simp_all add: example_cfg_def quiet_def example_env_interrupt_def example_env_def)
  have v: "redirection_valid example_env_interrupt example_pipeline ''a''"
    by code_simp
  have short: "stats (run_pipeline example_env_interrupt example_pipeline example_cfg [0, 0, 0, 0, 0]
            [''b'', ''a''] False) = [1, 0, 0, 1, 2]"
    by code_simp
  have tr: "trace (run_pipeline example_env_interrupt example_pipeline example_cfg [0, 0, 0, 0, 0]
            [''a'', ''b'', ''c''] False)
     = [Open ''a.in'' O_RDONLY 3, Close 3, Fork (Pid ''a'' 0) [''cat''],
        Fork (Pid ''a'' 1) [''wc'', ''-l'', ''a''], Waitpid (Pid ''a'' 0), Waitpid (Pid ''a'' 1)]"
    by code_simp
  have st: "stats (run_pipeline example_env_interrupt example_pipeline example_cfg [0, 0, 0, 0, 0]
            [''a'', ''b'', ''c''] False) = [1, 0, 0, 0, 1]"
    by code_simp
  show ?thesis
    using h v short tr st
      interrupt_abandons_remaining_files [of example_cfg example_env_interrupt "[''b'']" "''a''"
        example_pipeline "[''c'']" "[0, 0, 0, 0, 0]" "''a''" "''b''" "''c''"]
    by simp
qed

subsection \<open>The counters only grow\<close>

lemma length_bump [simp]: "length (bump c counters) = length counters"
  by (cases c) (simp_all add: length_incr)

lemma bump_nth_NOTEXEC:
  "length counters = 5 \<Longrightarrow>
   bump c counters ! NOTEXEC = counters ! NOTEXEC + (if c = Some NOTEXEC then 1 else 0)"
  by (cases c) (auto simp: incr_def Values_defs nth_list_update)

lemma bump_nth_TOTAL:
  "length counters = 5 \<Longrightarrow> c < 4 \<Longrightarrow>
   bump (Some c) counters ! TOTAL_STATS = counters ! TOTAL_STATS + 1"
  by (auto simp: incr_def Values_defs nth_list_update)

lemma fold_bump_notexec_mono:
  "length counters = 5 \<Longrightarrow>
   length (fold (\<lambda>z. bump (C z)) zs counters) = 5 \<and>
   counters ! NOTEXEC \<le> fold (\<lambda>z. bump (C z)) zs counters ! NOTEXEC"
proof (induction zs arbitrary: counters)
  case Nil
  then show ?case by simp
next
  case (Cons z zs)
  have "length (bump (C z) counters) = 5"
    using Cons.prems by simp
  from Cons.IH [OF this] show ?case
    using bump_nth_NOTEXEC [OF Cons.prems, of "C z"]
    by (simp del: bump.simps split: if_splits)
qed

lemma fold_bump_notexec_hit:
  "length counters = 5 \<Longrightarrow> z \<in> set zs \<Longrightarrow> C z = Some NOTEXEC \<Longrightarrow>
   counters ! NOTEXEC < fold (\<lambda>z. bump (C z)) zs counters ! NOTEXEC"
proof (induction zs arbitrary: counters)
  case Nil
  then show ?case by simp
next
  case (Cons y ys)
  have len: "length (bump (C y) counters) = 5"
    using Cons.prems(1) by simp
  show ?case
  proof (cases "y = z")
    case True
    then show ?thesis
      using fold_bump_notexec_mono [OF len, of C ys] Cons.prems(3)
        bump_nth_NOTEXEC [OF Cons.prems(1), of "C y"]
      by (simp del: bump.simps)
  next
    case False
    then have "z \<in> set ys" using Cons.prems(2) by simp
    from Cons.IH [OF len this Cons.prems(3)] show ?thesis
      using bump_nth_NOTEXEC [OF Cons.prems(1), of "C y"]
      by (simp del: bump.simps split: if_splits)
  qed
qed

lemma outcome_spec_bound: "outcome_spec statuses < 4"
  using outcome_spec_category [of statuses] by (auto simp: Values_defs)

lemma exec_invariant:
  assumes "length (stats s) = 5" "0 \<le> stats s ! NOTEXEC"
  shows "length (stats (run_pipeline_exec env pipeline fs i s)) = 5 \<and>
         0 \<le> stats (run_pipeline_exec env pipeline fs i s) ! NOTEXEC \<and>
         stats (run_pipeline_exec env pipeline fs i s) ! TOTAL_STATS
           \<le> stats s ! TOTAL_STATS + int (length fs) \<and>
         (sigInt (config (run_pipeline_exec env pipeline fs i s)) \<longrightarrow>
            sigInt (config s) \<or>
            (\<not> parallel (config s) \<and> sigintReceived (run_pipeline_exec env pipeline fs i s) \<and>
             stats (run_pipeline_exec env pipeline fs i s) ! TOTAL_STATS
               < stats s ! TOTAL_STATS + int (length fs)))"
  using assms
proof (induction fs arbitrary: i s)
  case Nil
  then show ?case by simp
next
  case (Cons f rest)
  let ?fl = "sigintReceived s \<or> sigint_in_validate env f"
  consider
      (notexec) "\<not> redirection_valid env pipeline f" "\<not> ?fl"
    | (par) "parallel (config s)" "redirection_valid env pipeline f \<or> ?fl"
    | (skipped) "\<not> parallel (config s)" "?fl"
    | (run) "\<not> parallel (config s)" "redirection_valid env pipeline f" "\<not> ?fl"
    by blast
  then show ?case
  proof cases
    case notexec
    let ?s' = "s\<lparr>trace := trace s @ validate_events env pipeline f,
                 stats := bump (Some NOTEXEC) (stats s)\<rparr>"
    have step: "run_pipeline_exec env pipeline (f # rest) i s
                  = run_pipeline_exec env pipeline rest (Suc i) ?s'"
      using notexec by (intro exec_step_notexec) simp_all
    have "length (stats ?s') = 5" "0 \<le> stats ?s' ! NOTEXEC"
      using Cons.prems by (simp_all add: bump_nth_NOTEXEC del: bump.simps)
    from Cons.IH [OF this, of "Suc i"] show ?thesis
      using Cons.prems(1) bump_nth_TOTAL [of "stats s" NOTEXEC]
      by (simp add: step NOTEXEC_def del: bump.simps;
          linarith?)
  next
    case par
    let ?s' = "deliver (sigint_in_process env f)
                (parallel_process pipeline f i
                   (deliver (sigint_in_validate env f)
                      (s\<lparr>trace := trace s @ validate_events env pipeline f\<rparr>)))"
    have step: "run_pipeline_exec env pipeline (f # rest) i s
                  = run_pipeline_exec env pipeline rest (Suc i) ?s'"
      using par by (intro exec_step_parallel) auto
    have "length (stats ?s') = 5" "0 \<le> stats ?s' ! NOTEXEC"
      using Cons.prems by simp_all
    from Cons.IH [OF this, of "Suc i"] show ?thesis
      using par(1) by (simp add: step;
          linarith?)
  next
    case skipped
    let ?s' = "deliver (sigint_in_validate env f)
                 (s\<lparr>trace := trace s @ validate_events env pipeline f\<rparr>)"
    have step: "run_pipeline_exec env pipeline (f # rest) i s
                  = run_pipeline_exec env pipeline rest (Suc i) ?s'"
      using skipped by (intro exec_step_skipped) auto
    have "length (stats ?s') = 5" "0 \<le> stats ?s' ! NOTEXEC"
      using Cons.prems by simp_all
    from Cons.IH [OF this, of "Suc i"] show ?thesis
      using skipped(1) by (simp add: step;
          linarith?)
  next
    case run
    let ?s2 = "deliver (sigint_in_process env f)
                 (sequential_process env pipeline f
                    (s\<lparr>trace := trace s @ validate_events env pipeline f\<rparr>))"
    have step: "run_pipeline_exec env pipeline (f # rest) i s
                  = (if sigintReceived ?s2 \<and> rest \<noteq> []
                     then ?s2\<lparr>config := (config ?s2)\<lparr>sigInt := True\<rparr>\<rparr>
                     else run_pipeline_exec env pipeline rest (Suc i) ?s2)"
    proof -
      from run(3) have "\<not> sigintReceived s" "\<not> sigint_in_validate env f"
        by simp_all
      from exec_step_sequential [OF run(2) run(1) this, of rest i] show ?thesis
        by (simp only: Let_def)
    qed
    have s2: "length (stats ?s2) = 5" "0 \<le> stats ?s2 ! NOTEXEC"
      "stats ?s2 ! TOTAL_STATS = stats s ! TOTAL_STATS + 1"
      using Cons.prems bump_nth_TOTAL [OF Cons.prems(1) outcome_spec_bound]
      by (simp_all add: bump_nth_NOTEXEC del: bump.simps)
    show ?thesis
    proof (cases "sigintReceived ?s2 \<and> rest \<noteq> []")
      case True
      then have "0 < length rest" by simp
      then show ?thesis
        using True s2 run(1) by (simp add: step del: bump.simps deliver_fields sequential_process_fields)
    next
      case False
      from Cons.IH [OF s2(1,2), of "Suc i"] show ?thesis
        using False s2(3) run(1) by (simp add: step del: bump.simps;
          linarith?)
    qed
  qed
qed

subsection \<open>The exit status\<close>

lemma run_pipeline_invariant:
  "length (stats (run_pipeline env pipeline cfg [0, 0, 0, 0, 0] files flag)) = 5 \<and>
   0 \<le> stats (run_pipeline env pipeline cfg [0, 0, 0, 0, 0] files flag) ! NOTEXEC \<and>
   (sigInt (config (run_pipeline env pipeline cfg [0, 0, 0, 0, 0] files flag)) \<longrightarrow>
      sigInt cfg \<or>
      (\<not> parallel cfg \<and> sigintReceived (run_pipeline env pipeline cfg [0, 0, 0, 0, 0] files flag) \<and>
       stats (run_pipeline env pipeline cfg [0, 0, 0, 0, 0] files flag) ! TOTAL_STATS
         < int (length files)))"
proof (cases "parallel cfg")
  case True
  let ?zs = "zip files (par_flags env pipeline files flag)"
  let ?mid = "fold (\<lambda>z. bump (par_exec_category env pipeline z)) ?zs [0, 0, 0, 0, 0]"
  have mid: "length ?mid = 5 \<and> [0, 0, 0, 0, 0] ! NOTEXEC \<le> ?mid ! NOTEXEC"
    by (rule fold_bump_notexec_mono) simp
  then have "length (fold (\<lambda>z. bump (par_reap_category env pipeline z)) ?zs ?mid) = 5 \<and>
      ?mid ! NOTEXEC \<le> fold (\<lambda>z. bump (par_reap_category env pipeline z)) ?zs ?mid ! NOTEXEC"
    by (intro fold_bump_notexec_mono) simp
  then show ?thesis
    using True mid by (simp add: run_pipeline_parallel NOTEXEC_def)
next
  case False
  let ?s0 = "\<lparr>stats = [0, 0, 0, 0, 0], config = cfg, pids = [None], sigintReceived = flag,
               trace = []\<rparr>"
  have "length (stats ?s0) = 5" "0 \<le> stats ?s0 ! NOTEXEC"
    by (simp_all add: NOTEXEC_def)
  from exec_invariant [OF this, of env pipeline files 0] show ?thesis
    using False by (simp add: run_pipeline_def TOTAL_STATS_def)
qed

subsection \<open>An interrupt seen before the poll\<close>

lemma seq_skipped_run:
  assumes "\<not> parallel (config s)" "sigintReceived s"
  shows "stats (run_pipeline_exec env pipeline fs i s) = stats s \<and>
         config (run_pipeline_exec env pipeline fs i s) = config s \<and>
         pids (run_pipeline_exec env pipeline fs i s) = pids s \<and>
         sigintReceived (run_pipeline_exec env pipeline fs i s) \<and>
         trace (run_pipeline_exec env pipeline fs i s)
           = trace s @ concat (map (validate_events env pipeline) fs)"
  using assms
proof (induction fs arbitrary: i s)
  case Nil
  then show ?case by simp
next
  case (Cons f rest)
  let ?s' = "deliver (sigint_in_validate env f) (s\<lparr>trace := trace s @ validate_events env pipeline f\<rparr>)"
  have step: "run_pipeline_exec env pipeline (f # rest) i s
                = run_pipeline_exec env pipeline rest (Suc i) ?s'"
    using Cons.prems by (intro exec_step_skipped) simp_all
  have "\<not> parallel (config ?s')" "sigintReceived ?s'"
    using Cons.prems by simp_all
  from Cons.IH [OF this, of "Suc i"] show ?case
    by (simp add: step)
qed

lemma seq_skipped_from:
  assumes "\<not> parallel (config s)" "sigintReceived s \<or> sigint_in_validate env g"
  shows "stats (run_pipeline_exec env pipeline (g # rest) i s) = stats s \<and>
         config (run_pipeline_exec env pipeline (g # rest) i s) = config s \<and>
         sigintReceived (run_pipeline_exec env pipeline (g # rest) i s) \<and>
         trace (run_pipeline_exec env pipeline (g # rest) i s)
           = trace s @ concat (map (validate_events env pipeline) (g # rest))"
proof -
  let ?s' = "deliver (sigint_in_validate env g) (s\<lparr>trace := trace s @ validate_events env pipeline g\<rparr>)"
  have step: "run_pipeline_exec env pipeline (g # rest) i s
                = run_pipeline_exec env pipeline rest (Suc i) ?s'"
    using assms by (rule exec_step_skipped)
  have "\<not> parallel (config ?s')" "sigintReceived ?s'"
    using assms by auto
  from seq_skipped_run [OF this, of env pipeline rest "Suc i"] show ?thesis
    by (simp add: step)
qed

lemma seq_interrupt_in_validate:
  assumes "\<not> parallel cfg" "quiet env pre" "flag \<and> pre = [] \<or> \<not> flag \<and> sigint_in_validate env g"
  shows "stats (run_pipeline env pipeline cfg [0, 0, 0, 0, 0] (pre @ g # rest) flag)
           = fold (\<lambda>h. bump (Some (seq_category env pipeline h))) pre [0, 0, 0, 0, 0] \<and>
         trace (run_pipeline env pipeline cfg [0, 0, 0, 0, 0] (pre @ g # rest) flag)
           = concat (map (seq_events env pipeline) pre) @
             concat (map (validate_events env pipeline) (g # rest)) \<and>
         sigintReceived (run_pipeline env pipeline cfg [0, 0, 0, 0, 0] (pre @ g # rest) flag) \<and>
         config (run_pipeline env pipeline cfg [0, 0, 0, 0, 0] (pre @ g # rest) flag) = cfg"
proof (cases flag)
  case True
  let ?s0 = "\<lparr>stats = [0, 0, 0, 0, 0], config = cfg, pids = [None], sigintReceived = True,
               trace = []\<rparr>"
  from True assms(3) have pre: "pre = []" by simp
  have "\<not> parallel (config ?s0)" "sigintReceived ?s0 \<or> sigint_in_validate env g"
    using assms(1) by simp_all
  from seq_skipped_from [OF this, of pipeline rest 0] show ?thesis
    using True pre assms(1) by (simp add: run_pipeline_def)
next
  case False
  let ?s0 = "\<lparr>stats = [0, 0, 0, 0, 0], config = cfg, pids = [None], sigintReceived = False,
               trace = []\<rparr>"
  let ?s1 = "run_pipeline_exec env pipeline pre 0 ?s0"
  from False assms(3) have g: "sigint_in_validate env g" by simp
  have s0: "\<not> parallel (config ?s0)" "\<not> sigintReceived ?s0"
    using assms(1) by simp_all
  have split: "run_pipeline_exec env pipeline (pre @ g # rest) 0 ?s0
                 = run_pipeline_exec env pipeline (g # rest) (0 + length pre) ?s1"
    using s0 assms(2) by (rule seq_quiet_append)
  have s1: "stats ?s1 = fold (\<lambda>h. bump (Some (seq_category env pipeline h))) pre [0, 0, 0, 0, 0]"
    "trace ?s1 = concat (map (seq_events env pipeline) pre)"
    "config ?s1 = cfg"
    using seq_quiet_run [OF s0 assms(2), of pipeline 0] by simp_all
  have "\<not> parallel (config ?s1)" "sigintReceived ?s1 \<or> sigint_in_validate env g"
    using assms(1) g s1(3) by simp_all
  from seq_skipped_from [OF this, of pipeline rest "0 + length pre"] show ?thesis
    using False assms(1) s1 by (simp add: run_pipeline_def split)
qed

text \<open>
  C5. The exit status does not follow the three-way rule when the interrupt is seen by
  one of the two tests at the head of the loop body instead of the poll after a file's
  pipeline. In a sequential run whose settings start without the interrupt record, let
  the flag be set on entry, or let SIGINT arrive while the redirections of a file \<open>g\<close>
  are validated, after the files \<open>pre\<close> were processed undisturbed: then \<open>g\<close> and every
  file after it are abandoned (they are validated, but nothing is spawned or counted for
  them, and the total is the number of files before \<open>g\<close>), the flag is set at the end,
  and yet the interrupt is not recorded: the exit status is \<open>PROCESS_ERROR\<close> or 0, never
  \<open>SIGINT_REC\<close>.
\<close>

theorem interrupt_before_poll_exits_normally:
  assumes "\<not> parallel cfg" "\<not> sigInt cfg" "quiet env pre"
    "flag \<and> pre = [] \<or> \<not> flag \<and> sigint_in_validate env g"
  shows "stats (run_pipeline env pipeline cfg [0, 0, 0, 0, 0] (pre @ g # rest) flag)
           = fold (\<lambda>h. bump (Some (seq_category env pipeline h))) pre [0, 0, 0, 0, 0] \<and>
         stats (run_pipeline env pipeline cfg [0, 0, 0, 0, 0] (pre @ g # rest) flag) ! TOTAL_STATS
           = int (length pre) \<and>
         int (length pre) < int (length (pre @ g # rest)) \<and>
         trace (run_pipeline env pipeline cfg [0, 0, 0, 0, 0] (pre @ g # rest) flag)
           = concat (map (seq_events env pipeline) pre) @
             concat (map (validate_events env pipeline) (g # rest)) \<and>
         sigintReceived (run_pipeline env pipeline cfg [0, 0, 0, 0, 0] (pre @ g # rest) flag) \<and>
         \<not> sigInt (config (run_pipeline env pipeline cfg [0, 0, 0, 0, 0] (pre @ g # rest) flag)) \<and>
         main env pipeline cfg (pre @ g # rest) flag
           = (if stats (run_pipeline env pipeline cfg [0, 0, 0, 0, 0] (pre @ g # rest) flag) ! NOTEXEC = 0
              then 0 else PROCESS_ERROR) \<and>
         main env pipeline cfg (pre @ g # rest) flag \<noteq> SIGINT_REC"
proof -
  let ?R = "run_pipeline env pipeline cfg [0, 0, 0, 0, 0] (pre @ g # rest) flag"
  note run = seq_interrupt_in_validate [OF assms(1,3,4), of pipeline rest]
  have tot: "length (fold (\<lambda>h. bump (Some (seq_category env pipeline h))) fs counters) = 5 \<and>
      fold (\<lambda>h. bump (Some (seq_category env pipeline h))) fs counters ! TOTAL_STATS
        = counters ! TOTAL_STATS + int (length fs)"
    if "length counters = 5" for fs counters
    using that
  proof (induction fs arbitrary: counters)
    case Nil
    then show ?case by simp
  next
    case (Cons h fs)
    have "length (bump (Some (seq_category env pipeline h)) counters) = 5"
      using Cons.prems by (simp del: bump.simps)
    from Cons.IH [OF this] show ?case
      using bump_nth_TOTAL [OF Cons.prems seq_category_bound, of env pipeline h]
      by (simp del: bump.simps)
  qed
  have "stats ?R ! TOTAL_STATS = int (length pre)"
    using run tot [of "[0, 0, 0, 0, 0]" pre] by (simp add: TOTAL_STATS_def)
  moreover have "main env pipeline cfg (pre @ g # rest) flag
           = (if stats ?R ! NOTEXEC = 0 then 0 else PROCESS_ERROR)"
    using run assms(2) by (simp add: main_def Let_def)
  ultimately show ?thesis
    using run assms(2) by (simp add: PROCESS_ERROR_def SIGINT_REC_def)
qed

theorem interrupt_before_poll_exits_normally_witness:
  "\<not> parallel example_cfg \<and> \<not> sigInt example_cfg \<and>
   quiet example_env_late_interrupt [''a''] \<and> sigint_in_validate example_env_late_interrupt ''c'' \<and>
   stats (run_pipeline example_env_late_interrupt example_pipeline example_cfg [0, 0, 0, 0, 0]
            [''a'', ''c'', ''b''] False) = [1, 0, 0, 0, 1] \<and>
   trace (run_pipeline example_env_late_interrupt example_pipeline example_cfg [0, 0, 0, 0, 0]
            [''a'', ''c'', ''b''] False)
     = [Open ''a.in'' O_RDONLY 3, Close 3,
        Fork (Pid ''a'' 0) [''cat''], Fork (Pid ''a'' 1) [''wc'', ''-l'', ''a''],
        Waitpid (Pid ''a'' 0), Waitpid (Pid ''a'' 1),
        Open ''c.in'' O_RDONLY 3, Close 3,
        Open ''b.in'' O_RDONLY (- 1), Stderr (readError ''b.in'' ''b'')] \<and>
   sigintReceived (run_pipeline example_env_late_interrupt example_pipeline example_cfg
            [0, 0, 0, 0, 0] [''a'', ''c'', ''b''] False) \<and>
   main example_env_late_interrupt example_pipeline example_cfg [''a'', ''c'', ''b''] False = 0 \<and>
   stats (run_pipeline example_env example_pipeline example_cfg [0, 0, 0, 0, 0]
            [''a'', ''c'', ''b''] True) = [0, 0, 0, 0, 0] \<and>
   main example_env example_pipeline example_cfg [''a'', ''c'', ''b''] True = 0 \<and>
   stats (run_pipeline example_env_interrupt example_pipeline example_cfg [0, 0, 0, 0, 0]
            [''a'', ''c'', ''b''] False) = [1, 0, 0, 0, 1] \<and>
   main example_env_interrupt example_pipeline example_cfg [''a'', ''c'', ''b''] False = SIGINT_REC \<and>
   stats (run_pipeline example_env example_pipeline example_cfg [0, 0, 0, 0, 0]
            [''a'', ''c'', ''b''] False) = [1, 0, 1, 1, 3] \<and>
   main example_env example_pipeline example_cfg [''a'', ''c'', ''b''] False = PROCESS_ERROR \<and>
   SIGINT_REC = 17 \<and> PROCESS_ERROR = 16"
proof -
  have c: "\<not> parallel example_cfg" "\<not> sigInt example_cfg"
    by (simp_all add: example_cfg_def)
  have q: "quiet example_env_late_interrupt [''a'']" "quiet example_env []"
    by (simp_all add: quiet_def example_env_late_interrupt_def example_env_def)
  have g: "sigint_in_validate example_env_late_interrupt ''c''"
    by (simp add: example_env_late_interrupt_def)
  have late: "stats (run_pipeline example_env_late_interrupt example_pipeline example_cfg [0, 0, 0, 0, 0]
            [''a'', ''c'', ''b''] False) = [1, 0, 0, 0, 1]"
    "trace (run_pipeline example_env_late_interrupt example_pipeline example_cfg [0, 0, 0, 0, 0]
            [''a'', ''c'', ''b''] False)
     = [Open ''a.in'' O_RDONLY 3, Close 3,
        Fork (Pid ''a'' 0) [''cat''], Fork (Pid ''a'' 1) [''wc'', ''-l'', ''a''],
        Waitpid (Pid ''a'' 0), Waitpid (Pid ''a'' 1),
        Open ''c.in'' O_RDONLY 3, Close 3,
        Open ''b.in'' O_RDONLY (- 1), Stderr (readError ''b.in'' ''b'')]"
    by code_simp+
  have entry: "stats (run_pipeline example_env example_pipeline example_cfg [0, 0, 0, 0, 0]
            [''a'', ''c'', ''b''] True) = [0, 0, 0, 0, 0]"
    by code_simp
  have i: "stats (run_pipeline example_env_interrupt example_pipeline example_cfg [0, 0, 0, 0, 0]
            [''a'', ''c'', ''b''] False) = [1, 0, 0, 0, 1]"
    "main example_env_interrupt example_pipeline example_cfg [''a'', ''c'', ''b''] False = SIGINT_REC"
    "stats (run_pipeline example_env example_pipeline example_cfg [0, 0, 0, 0, 0]
            [''a'', ''c'', ''b''] False) = [1, 0, 1, 1, 3]"
    "main example_env example_pipeline example_cfg [''a'', ''c'', ''b''] False = PROCESS_ERROR"
    by code_simp+
  have k: "SIGINT_REC = 17" "PROCESS_ERROR = 16"
    by (simp_all add: SIGINT_REC_def PROCESS_ERROR_def)
  have m1: "main example_env_late_interrupt example_pipeline example_cfg [''a'', ''c'', ''b''] False = 0"
    and s1: "sigintReceived (run_pipeline example_env_late_interrupt example_pipeline example_cfg
            [0, 0, 0, 0, 0] [''a'', ''c'', ''b''] False)"
    using interrupt_before_poll_exits_normally [OF c q(1), of False "''c''" example_pipeline "[''b'']"] g
    by (simp_all add: late NOTEXEC_def)
  have m2: "main example_env example_pipeline example_cfg [''a'', ''c'', ''b''] True = 0"
    using interrupt_before_poll_exits_normally [OF c q(2), of True "''a''" example_pipeline "[''c'', ''b'']"]
    by (simp add: entry NOTEXEC_def)
  show ?thesis
    using c q(1) g late entry i k m1 m2 s1 by simp
qed

subsection \<open>Exit code 99\<close>

lemma waitpid_in_statuses:
  "i < numCmds pipeline \<Longrightarrow> waitpid env pipeline (Pid f i) \<in> set (statuses_of env pipeline f)"
  by (simp add: statuses_of_def children_of_def)

lemma outcome_spec_NOTEXEC:
  "Exited CHILD_PROCESS_ERROR \<in> set statuses \<Longrightarrow> outcome_spec statuses = NOTEXEC"
  by (auto simp: outcome_spec_def could_not_execute_def)

lemma child_status_exec:
  "child_status (child_process env pipeline argv i f)
     = (case os_execvp env (Pid f i) argv of
          ExecFailed \<Rightarrow> Exited CHILD_PROCESS_ERROR | Terminated st \<Rightarrow> st)"
  by (simp add: child_process_def split: prod.splits exec_result.splits)

lemma notexec_stage_counted:
  assumes "f \<in> set files" "outcome_spec (statuses_of env pipeline f) = NOTEXEC"
    "parallel cfg \<or> (\<not> flag \<and> quiet env files)"
  shows "0 < stats (run_pipeline env pipeline cfg [0, 0, 0, 0, 0] files flag) ! NOTEXEC"
proof (cases "parallel cfg")
  case True
  let ?zs = "zip files (par_flags env pipeline files flag)"
  let ?mid = "fold (\<lambda>z. bump (par_exec_category env pipeline z)) ?zs [0, 0, 0, 0, 0]"
  obtain fl where z: "(f, fl) \<in> set ?zs"
    using in_zip_par_flags [OF assms(1)] by blast
  have mid: "length ?mid = 5 \<and> [0, 0, 0, 0, 0] ! NOTEXEC \<le> ?mid ! NOTEXEC"
    by (rule fold_bump_notexec_mono) simp
  have fin: "?mid ! NOTEXEC \<le> fold (\<lambda>z. bump (par_reap_category env pipeline z)) ?zs ?mid ! NOTEXEC"
    using mid fold_bump_notexec_mono [of ?mid "par_reap_category env pipeline" ?zs] by simp
  have "0 < fold (\<lambda>z. bump (par_reap_category env pipeline z)) ?zs ?mid ! NOTEXEC"
  proof (cases "par_spawned env pipeline (f, fl)")
    case True
    then have "par_reap_category env pipeline (f, fl) = Some NOTEXEC"
      using assms(2) by (simp add: par_reap_category_def)
    then show ?thesis
      using fold_bump_notexec_hit [of ?mid "(f, fl)" ?zs "par_reap_category env pipeline"] mid z
      by (simp add: NOTEXEC_def)
  next
    case False
    then have "par_exec_category env pipeline (f, fl) = Some NOTEXEC"
      by (simp add: par_exec_category_def)
    then show ?thesis
      using fold_bump_notexec_hit [of "[0, 0, 0, 0, 0]" "(f, fl)" ?zs "par_exec_category env pipeline"]
        fin z
      by (simp add: NOTEXEC_def)
  qed
  then show ?thesis
    using True by (simp add: run_pipeline_parallel)
next
  case False
  then have q: "\<not> flag" "quiet env files" using assms(3) by simp_all
  have "seq_category env pipeline f = NOTEXEC"
    using assms(2) by (simp add: seq_category_def)
  then show ?thesis
    using fold_bump_notexec_hit [of "[0, 0, 0, 0, 0]" f files "\<lambda>g. Some (seq_category env pipeline g)"]
      assms(1) False q
    by (simp add: run_pipeline_sequential_quiet NOTEXEC_def)
qed

subsection \<open>A reaped exit code 99 is counted\<close>

lemma count_stats_take:
  "count_stats counters statuses n = bump (Some (outcome_spec (take n statuses))) counters"
  by (simp add: count_stats_def count_stats_loop_flags outcome_spec_def)

lemma reap_children_general:
  "reap_children env pipeline children counters n
     = (bump (Some (outcome_spec (map (waitpid env pipeline) (take n children)))) counters,
        map Waitpid (take n children))"
  by (simp add: reap_children_def count_stats_take take_map del: bump.simps)

lemma counted_step:
  assumes "counted p s" "stats s' = bump c (stats s)" "trace s' = trace s @ ev"
    "Waitpid p \<in> set ev \<Longrightarrow> c = Some NOTEXEC"
  shows "counted p s'"
proof -
  from assms(1) have len: "length (stats s) = 5"
    by (simp add: counted_def)
  note n = bump_nth_NOTEXEC [OF len, of c]
  show ?thesis
    using assms n by (auto simp: counted_def simp del: bump.simps split: if_splits)
qed

lemma counted_deliver [simp]: "counted p (deliver b s) = counted p s"
  by (simp add: counted_def)

lemma counted_config [simp]: "counted p (s\<lparr>config := c\<rparr>) = counted p s"
  by (simp add: counted_def)

lemma no_wait_in_validate_spec: "Waitpid p \<notin> set (snd (validate_spec env paths f))"
  by (induction paths) (auto simp: Let_def split: prod.splits if_splits)

lemma no_wait_in_validate: "Waitpid p \<notin> set (validate_events env pipeline f)"
  by (simp add: validate_events_def validate_files_refines no_wait_in_validate_spec)

lemma no_wait_in_fork: "Waitpid p \<notin> set (fork_events pipeline f)"
  by (auto simp: fork_events_def)

lemma wait_in_wait_events:
  "Waitpid p \<in> set (wait_events pipeline g) \<Longrightarrow> waitpid env pipeline p \<in> set (statuses_of env pipeline g)"
  by (auto simp: wait_events_def statuses_of_def children_of_def)

lemma exec_counted:
  assumes "waitpid env pipeline p = Exited CHILD_PROCESS_ERROR" "counted p s"
  shows "counted p (run_pipeline_exec env pipeline fs i s)"
  using assms(2)
proof (induction fs arbitrary: i s)
  case Nil
  then show ?case by simp
next
  case (Cons g rest)
  let ?fl = "sigintReceived s \<or> sigint_in_validate env g"
  consider
      (notexec) "\<not> redirection_valid env pipeline g" "\<not> ?fl"
    | (par) "parallel (config s)" "redirection_valid env pipeline g \<or> ?fl"
    | (skipped) "\<not> parallel (config s)" "?fl"
    | (run) "\<not> parallel (config s)" "redirection_valid env pipeline g" "\<not> ?fl"
    by blast
  then show ?case
  proof cases
    case notexec
    let ?s' = "s\<lparr>trace := trace s @ validate_events env pipeline g,
                 stats := bump (Some NOTEXEC) (stats s)\<rparr>"
    have step: "run_pipeline_exec env pipeline (g # rest) i s
                  = run_pipeline_exec env pipeline rest (Suc i) ?s'"
      using notexec by (intro exec_step_notexec) simp_all
    have "counted p ?s'"
      using Cons.prems
      by (rule counted_step [where c = "Some NOTEXEC" and ev = "validate_events env pipeline g"])
         (simp_all add: no_wait_in_validate del: bump.simps)
    from Cons.IH [OF this] show ?thesis
      by (simp only: step)
  next
    case par
    let ?s' = "deliver (sigint_in_process env g)
                (parallel_process pipeline g i
                   (deliver (sigint_in_validate env g)
                      (s\<lparr>trace := trace s @ validate_events env pipeline g\<rparr>)))"
    have step: "run_pipeline_exec env pipeline (g # rest) i s
                  = run_pipeline_exec env pipeline rest (Suc i) ?s'"
      using par by (intro exec_step_parallel) auto
    have "counted p ?s'"
      using Cons.prems
      by (rule counted_step [where c = None
            and ev = "validate_events env pipeline g @ fork_events pipeline g"])
         (simp_all add: no_wait_in_validate no_wait_in_fork)
    from Cons.IH [OF this] show ?thesis
      by (simp only: step)
  next
    case skipped
    let ?s' = "deliver (sigint_in_validate env g)
                 (s\<lparr>trace := trace s @ validate_events env pipeline g\<rparr>)"
    have step: "run_pipeline_exec env pipeline (g # rest) i s
                  = run_pipeline_exec env pipeline rest (Suc i) ?s'"
      using skipped by (intro exec_step_skipped) auto
    have "counted p ?s'"
      using Cons.prems
      by (rule counted_step [where c = None and ev = "validate_events env pipeline g"])
         (simp_all add: no_wait_in_validate)
    from Cons.IH [OF this] show ?thesis
      by (simp only: step)
  next
    case run
    let ?s2 = "deliver (sigint_in_process env g)
                 (sequential_process env pipeline g
                    (s\<lparr>trace := trace s @ validate_events env pipeline g\<rparr>))"
    have step: "run_pipeline_exec env pipeline (g # rest) i s
                  = (if sigintReceived ?s2 \<and> rest \<noteq> []
                     then ?s2\<lparr>config := (config ?s2)\<lparr>sigInt := True\<rparr>\<rparr>
                     else run_pipeline_exec env pipeline rest (Suc i) ?s2)"
    proof -
      from run(3) have "\<not> sigintReceived s" "\<not> sigint_in_validate env g"
        by simp_all
      from exec_step_sequential [OF run(2) run(1) this, of rest i] show ?thesis
        by (simp only: Let_def)
    qed
    have hit: "outcome_spec (statuses_of env pipeline g) = NOTEXEC"
      if "Waitpid p \<in> set (wait_events pipeline g)"
      using wait_in_wait_events [OF that, of env] assms(1) by (simp add: outcome_spec_NOTEXEC)
    have s2: "counted p ?s2"
      using Cons.prems
      by (rule counted_step [where c = "Some (outcome_spec (statuses_of env pipeline g))"
            and ev = "validate_events env pipeline g @ fork_events pipeline g @ wait_events pipeline g"])
         (auto simp: no_wait_in_validate no_wait_in_fork hit simp del: bump.simps)
    show ?thesis
    proof (cases "sigintReceived ?s2 \<and> rest \<noteq> []")
      case True
      then have "run_pipeline_exec env pipeline (g # rest) i s
                   = ?s2\<lparr>config := (config ?s2)\<lparr>sigInt := True\<rparr>\<rparr>"
        unfolding step by (rule if_P)
      then show ?thesis
        using s2 by (simp only: counted_config)
    next
      case False
      then have "run_pipeline_exec env pipeline (g # rest) i s
                   = run_pipeline_exec env pipeline rest (Suc i) ?s2"
        unfolding step by (rule if_not_P)
      then show ?thesis
        using Cons.IH [OF s2] by (simp only:)
    qed
  qed
qed

lemma reap_counted:
  assumes "waitpid env pipeline p = Exited CHILD_PROCESS_ERROR" "counted p s"
  shows "counted p (run_pipeline_reap env pipeline slots s)"
  using assms(2)
proof (induction slots arbitrary: s)
  case Nil
  then show ?case by simp
next
  case (Cons slot slots)
  show ?case
  proof (cases slot)
    case None
    then show ?thesis using Cons by simp
  next
    case (Some children)
    let ?n = "numCmds pipeline"
    let ?c = "Some (outcome_spec (map (waitpid env pipeline) (take ?n children)))"
    let ?s' = "s\<lparr>stats := bump ?c (stats s), trace := trace s @ map Waitpid (take ?n children)\<rparr>"
    have step: "run_pipeline_reap env pipeline (slot # slots) s
                  = run_pipeline_reap env pipeline slots ?s'"
      using Some by (simp add: reap_children_general del: bump.simps)
    have hit: "?c = Some NOTEXEC" if "Waitpid p \<in> set (map Waitpid (take ?n children))"
    proof -
      from that have "p \<in> set (take ?n children)" by auto
      then have "Exited CHILD_PROCESS_ERROR \<in> set (map (waitpid env pipeline) (take ?n children))"
        using assms(1) by force
      then show ?thesis by (simp add: outcome_spec_NOTEXEC)
    qed
    have "counted p ?s'"
      using Cons.prems
      by (rule counted_step [where c = ?c and ev = "map Waitpid (take ?n children)"])
         (simp_all add: hit del: bump.simps)
    from Cons.IH [OF this] show ?thesis
      by (simp only: step)
  qed
qed

lemma run_counted:
  assumes "waitpid env pipeline p = Exited CHILD_PROCESS_ERROR"
  shows "counted p (run_pipeline env pipeline cfg [0, 0, 0, 0, 0] files flag)"
proof -
  let ?s0 = "\<lparr>stats = [0, 0, 0, 0, 0], config = cfg,
               pids = (if parallel cfg then replicate (length files) None else [None]),
               sigintReceived = flag, trace = []\<rparr>"
  have "counted p ?s0"
    by (simp add: counted_def NOTEXEC_def)
  then have e: "counted p (run_pipeline_exec env pipeline files 0 ?s0)"
    by (rule exec_counted [OF assms])
  show ?thesis
  proof (cases "parallel cfg")
    case True
    then show ?thesis
      using reap_counted [OF assms e] by (simp add: run_pipeline_def Let_def)
  next
    case False
    then show ?thesis
      using e by (simp add: run_pipeline_def Let_def)
  qed
qed

text \<open>
  C10. A stage whose program is executed and exits with code 99 terminates with the very
  status of a stage that could not be executed. A file one of whose stages has this
  status classifies as NotExecuted, and reaping its children increments the NotExecuted
  counter and the total. In every run, of either mode and under any timing of the
  interrupt, in which such a child is reaped, the final NotExecuted counter is positive
  and \<open>main\<close> exits with \<open>PROCESS_ERROR\<close>, which is 16, also when the interrupt has
  been recorded. In parallel mode, and in sequential mode without an interrupt, this
  holds for every file of the list with such a stage.
\<close>

theorem exit_code_99_counts_as_not_executed:
  "(os_execvp env (Pid f i) argv = Terminated (Exited CHILD_PROCESS_ERROR) \<or>
    os_execvp env (Pid f i) argv = ExecFailed \<longrightarrow>
      child_status (child_process env pipeline argv i f) = Exited CHILD_PROCESS_ERROR) \<and>
   (i < numCmds pipeline \<and> waitpid env pipeline (Pid f i) = Exited CHILD_PROCESS_ERROR \<longrightarrow>
      outcome_spec (statuses_of env pipeline f) = NOTEXEC \<and>
      fst (reap_children env pipeline (children_of pipeline f) counters (numCmds pipeline))
        = incr TOTAL_STATS (incr NOTEXEC counters)) \<and>
   (waitpid env pipeline (Pid f i) = Exited CHILD_PROCESS_ERROR \<and>
    Waitpid (Pid f i) \<in> set (trace (run_pipeline env pipeline cfg [0, 0, 0, 0, 0] files flag)) \<longrightarrow>
      0 < stats (run_pipeline env pipeline cfg [0, 0, 0, 0, 0] files flag) ! NOTEXEC \<and>
      main env pipeline cfg files flag = PROCESS_ERROR) \<and>
   (f \<in> set files \<and> i < numCmds pipeline \<and>
    waitpid env pipeline (Pid f i) = Exited CHILD_PROCESS_ERROR \<and>
    (parallel cfg \<or> (\<not> flag \<and> quiet env files)) \<longrightarrow>
      main env pipeline cfg files flag = PROCESS_ERROR) \<and>
   PROCESS_ERROR = 16 \<and> CHILD_PROCESS_ERROR = 99"
proof (intro conjI impI)
  assume "os_execvp env (Pid f i) argv = Terminated (Exited CHILD_PROCESS_ERROR) \<or>
    os_execvp env (Pid f i) argv = ExecFailed"
  then show "child_status (child_process env pipeline argv i f) = Exited CHILD_PROCESS_ERROR"
    by (auto simp: child_status_exec)
next
  assume h: "i < numCmds pipeline \<and> waitpid env pipeline (Pid f i) = Exited CHILD_PROCESS_ERROR"
  then have "Exited CHILD_PROCESS_ERROR \<in> set (statuses_of env pipeline f)"
    using waitpid_in_statuses [of i pipeline env f] by simp
  then have ne: "outcome_spec (statuses_of env pipeline f) = NOTEXEC"
    by (rule outcome_spec_NOTEXEC)
  then show "outcome_spec (statuses_of env pipeline f) = NOTEXEC" .
  show "fst (reap_children env pipeline (children_of pipeline f) counters (numCmds pipeline))
        = incr TOTAL_STATS (incr NOTEXEC counters)"
    by (simp add: reap_children_eq ne)
next
  assume h: "waitpid env pipeline (Pid f i) = Exited CHILD_PROCESS_ERROR \<and>
    Waitpid (Pid f i) \<in> set (trace (run_pipeline env pipeline cfg [0, 0, 0, 0, 0] files flag))"
  then have "counted (Pid f i) (run_pipeline env pipeline cfg [0, 0, 0, 0, 0] files flag)"
    by (intro run_counted) simp
  with h show pos: "0 < stats (run_pipeline env pipeline cfg [0, 0, 0, 0, 0] files flag) ! NOTEXEC"
    by (simp add: counted_def)
  then show "main env pipeline cfg files flag = PROCESS_ERROR"
    by (simp add: main_def Let_def)
next
  assume h: "f \<in> set files \<and> i < numCmds pipeline \<and>
    waitpid env pipeline (Pid f i) = Exited CHILD_PROCESS_ERROR \<and>
    (parallel cfg \<or> (\<not> flag \<and> quiet env files))"
  then have "Exited CHILD_PROCESS_ERROR \<in> set (statuses_of env pipeline f)"
    using waitpid_in_statuses [of i pipeline env f] by simp
  then have ne: "outcome_spec (statuses_of env pipeline f) = NOTEXEC"
    by (rule outcome_spec_NOTEXEC)
  have "0 < stats (run_pipeline env pipeline cfg [0, 0, 0, 0, 0] files flag) ! NOTEXEC"
    using h ne by (intro notexec_stage_counted) simp_all
  then show "main env pipeline cfg files flag = PROCESS_ERROR"
    by (simp add: main_def Let_def)
next
  show "PROCESS_ERROR = 16"
    by (simp add: PROCESS_ERROR_def)
  show "CHILD_PROCESS_ERROR = 99"
    by (simp add: CHILD_PROCESS_ERROR_def)
qed

theorem exit_code_99_counts_as_not_executed_witness:
  "os_execvp example_env_exits_99 (Pid ''a'' 1) [''wc'', ''-l'', ''a''] = Terminated (Exited 99) \<and>
   child_status (child_process example_env_exits_99 example_pipeline [''wc'', ''-l'', ''a''] 1 ''a'')
     = Exited 99 \<and>
   ''a'' \<in> set [''a''] \<and> 1 < numCmds example_pipeline \<and>
   waitpid example_env_exits_99 example_pipeline (Pid ''a'' 1) = Exited 99 \<and>
   quiet example_env_exits_99 [''a''] \<and>
   stats (run_pipeline example_env_exits_99 example_pipeline example_cfg [0, 0, 0, 0, 0] [''a''] False)
     = [0, 0, 0, 1, 1] \<and>
   main example_env_exits_99 example_pipeline example_cfg [''a''] False = 16 \<and>
   waitpid example_env_exits_99_interrupt example_pipeline (Pid ''a'' 1) = Exited 99 \<and>
   trace (run_pipeline example_env_exits_99_interrupt example_pipeline example_cfg [0, 0, 0, 0, 0]
            [''a'', ''c''] False)
     = [Open ''a.in'' O_RDONLY 3, Close 3,
        Fork (Pid ''a'' 0) [''cat''], Fork (Pid ''a'' 1) [''wc'', ''-l'', ''a''],
        Waitpid (Pid ''a'' 0), Waitpid (Pid ''a'' 1)] \<and>
   sigInt (config (run_pipeline example_env_exits_99_interrupt example_pipeline example_cfg
            [0, 0, 0, 0, 0] [''a'', ''c''] False)) \<and>
   stats (run_pipeline example_env_exits_99_interrupt example_pipeline example_cfg [0, 0, 0, 0, 0]
            [''a'', ''c''] False) = [0, 0, 0, 1, 1] \<and>
   main example_env_exits_99_interrupt example_pipeline example_cfg [''a'', ''c''] False = 16"
proof -
  have x: "os_execvp example_env_exits_99 (Pid ''a'' 1) [''wc'', ''-l'', ''a''] = Terminated (Exited 99)"
    by (simp add: example_env_exits_99_def)
  have n: "(1::nat) < numCmds example_pipeline"
    by (simp add: numCmds_def example_pipeline_def)
  have w: "waitpid example_env_exits_99 example_pipeline (Pid ''a'' 1) = Exited 99"
    "waitpid example_env_exits_99_interrupt example_pipeline (Pid ''a'' 1) = Exited 99"
    by code_simp+
  have q: "quiet example_env_exits_99 [''a'']"
    by (simp add: quiet_def example_env_exits_99_def example_env_def)
  have s: "stats (run_pipeline example_env_exits_99 example_pipeline example_cfg [0, 0, 0, 0, 0] [''a''] False)
     = [0, 0, 0, 1, 1]"
    by code_simp
  have t: "trace (run_pipeline example_env_exits_99_interrupt example_pipeline example_cfg [0, 0, 0, 0, 0]
            [''a'', ''c''] False)
     = [Open ''a.in'' O_RDONLY 3, Close 3,
        Fork (Pid ''a'' 0) [''cat''], Fork (Pid ''a'' 1) [''wc'', ''-l'', ''a''],
        Waitpid (Pid ''a'' 0), Waitpid (Pid ''a'' 1)]"
    "sigInt (config (run_pipeline example_env_exits_99_interrupt example_pipeline example_cfg
            [0, 0, 0, 0, 0] [''a'', ''c''] False))"
    "stats (run_pipeline example_env_exits_99_interrupt example_pipeline example_cfg [0, 0, 0, 0, 0]
            [''a'', ''c''] False) = [0, 0, 0, 1, 1]"
    by code_simp+
  note T = exit_code_99_counts_as_not_executed [of example_env_exits_99 "''a''" 1 "[''wc'', ''-l'', ''a'']"
        example_pipeline "[0, 0, 0, 0, 0]" example_cfg "[''a'']" False]
  note U = exit_code_99_counts_as_not_executed [of example_env_exits_99_interrupt "''a''" 1
        "[''wc'', ''-l'', ''a'']" example_pipeline "[0, 0, 0, 0, 0]" example_cfg "[''a'', ''c'']" False]
  have c: "child_status (child_process example_env_exits_99 example_pipeline [''wc'', ''-l'', ''a''] 1 ''a'')
     = Exited 99"
    using T [THEN conjunct1] x by (simp add: CHILD_PROCESS_ERROR_def)
  have m1: "main example_env_exits_99 example_pipeline example_cfg [''a''] False = 16"
    using T [THEN conjunct2, THEN conjunct2, THEN conjunct2, THEN conjunct1] n w q
    by (simp add: CHILD_PROCESS_ERROR_def PROCESS_ERROR_def)
  have m2: "main example_env_exits_99_interrupt example_pipeline example_cfg [''a'', ''c''] False = 16"
    using U [THEN conjunct2, THEN conjunct2, THEN conjunct1] w
    by (simp add: t CHILD_PROCESS_ERROR_def PROCESS_ERROR_def)
  show ?thesis
    using x n w q s t c m1 m2 by simp
qed

subsection \<open>A stage that cannot be executed\<close>


subsection \<open>The coordinator does not see the outcome of execvp before it reaps\<close>

lemma validate_spec_execvp:
  "validate_spec (env\<lparr>os_execvp := X\<rparr>) paths f = validate_spec env paths f"
  by (induction paths) (auto simp: Let_def)

lemma validate_files_execvp [simp]:
  "validate_files (env\<lparr>os_execvp := X\<rparr>) inputFile outputFile f
     = validate_files env inputFile outputFile f"
  by (simp add: validate_files_refines validate_spec_execvp)

lemma redirection_valid_execvp [simp]:
  "redirection_valid (env\<lparr>os_execvp := X\<rparr>) pipeline f = redirection_valid env pipeline f"
  by (simp add: redirection_valid_def)

lemma validate_events_execvp [simp]:
  "validate_events (env\<lparr>os_execvp := X\<rparr>) pipeline f = validate_events env pipeline f"
  by (simp add: validate_events_def)














subsection \<open>A failed validation under an interrupt\<close>

text \<open>
  C3. In parallel mode with the flag already set, the test that skips a file whose
  redirection validation fails is not taken: for the file \<open>b\<close> of the small run, whose
  input cannot be opened, both stages are spawned and reaped, and the file is counted as
  a success. With the flag clear the same file is counted as NotExecuted and nothing is
  spawned for it; in sequential mode with the flag set nothing is spawned for it.
\<close>

theorem parallel_interrupt_spawns_unvalidated_file:
  "\<not> redirection_valid example_env example_pipeline ''b'' \<and>
   trace (run_pipeline example_env example_pipeline (example_cfg\<lparr>parallel := True\<rparr>)
            [0, 0, 0, 0, 0] [''b''] True)
     = [Open ''b.in'' O_RDONLY (- 1), Stderr (readError ''b.in'' ''b''),
        Fork (Pid ''b'' 0) [''cat''], Fork (Pid ''b'' 1) [''wc'', ''-l'', ''b''],
        Waitpid (Pid ''b'' 0), Waitpid (Pid ''b'' 1)] \<and>
   stats (run_pipeline example_env example_pipeline (example_cfg\<lparr>parallel := True\<rparr>)
            [0, 0, 0, 0, 0] [''b''] True) = [1, 0, 0, 0, 1] \<and>
   stats (run_pipeline example_env example_pipeline (example_cfg\<lparr>parallel := True\<rparr>)
            [0, 0, 0, 0, 0] [''b''] False) = [0, 0, 0, 1, 1] \<and>
   process_events_of ''b'' (trace (run_pipeline example_env example_pipeline
            (example_cfg\<lparr>parallel := True\<rparr>) [0, 0, 0, 0, 0] [''b''] False)) = [] \<and>
   process_events_of ''b'' (trace (run_pipeline example_env example_pipeline example_cfg
            [0, 0, 0, 0, 0] [''b''] True)) = []"
  by code_simp

end
